theory Spec2Isabelle
  imports Complex_Main "HOL-Library.Sublist" "HOL-Library.Multiset" "HOL-Library.Log_Nat"
begin

section \<open>Project portfolio selection (0/1 knapsack): the four solvers of gspython.py\<close>

subsection \<open>Data model\<close>

text \<open>
  The frozen dataclass \<open>Project(name, value, hours)\<close>. The field \<open>value\<close> is written
  \<open>val\<close> here. Python integers are unbounded, hence \<open>int\<close>.
\<close>

record project =
  name :: string
  val :: int
  hours :: int

text \<open>The exceptions the four solvers can raise.\<close>

datatype error = ZeroDivisionError | OverflowError | IndexError

text \<open>
  Python list indexing \<open>xs[k]\<close>: a negative index counts from the end, an index outside
  the list raises IndexError. \<open>py_set\<close> is the item assignment \<open>xs[k] = v\<close>.
\<close>

definition py_get :: "'a list \<Rightarrow> int \<Rightarrow> error + 'a" where
  "py_get xs k =
     (let n = int (length xs); j = (if k < 0 then k + n else k)
      in if 0 \<le> j \<and> j < n then Inr (xs ! nat j) else Inl IndexError)"

definition py_set :: "'a list \<Rightarrow> int \<Rightarrow> 'a \<Rightarrow> error + 'a list" where
  "py_set xs k v =
     (let n = int (length xs); j = (if k < 0 then k + n else k)
      in if 0 \<le> j \<and> j < n then Inr (xs[nat j := v]) else Inl IndexError)"

text \<open>Sequencing of computations that may raise, and a for-loop over a list of indices.\<close>

definition ebind :: "error + 'a \<Rightarrow> ('a \<Rightarrow> error + 'b) \<Rightarrow> error + 'b" where
  "ebind m f = (case m of Inl e \<Rightarrow> Inl e | Inr x \<Rightarrow> f x)"

fun efold :: "('a \<Rightarrow> 's \<Rightarrow> error + 's) \<Rightarrow> 'a list \<Rightarrow> 's \<Rightarrow> error + 's" where
  "efold f [] s = Inr s"
| "efold f (x # xs) s = ebind (f x s) (efold f xs)"

text \<open>Sums over a chosen subset.\<close>

definition value_sum :: "project list \<Rightarrow> int" where
  "value_sum ps = sum_list (map val ps)"

definition hours_sum :: "project list \<Rightarrow> int" where
  "hours_sum ps = sum_list (map hours ps)"

subsection \<open>greedy_knapsack\<close>

text \<open>
  The sort key \<open>p.value / p.hours\<close> is Python's true division of two integers. It
  raises ZeroDivisionError when the divisor is zero; otherwise the exact quotient is
  rounded to the nearest IEEE 754 binary64 number, ties to even, and OverflowError is
  raised when the rounded magnitude reaches \<open>2 ^ 1024\<close>. A float is represented by the
  rational number it denotes, which is what the comparisons of \<open>sorted\<close> look at.

  \<open>ilog2 x\<close> is the floor of the binary logarithm of a positive rational, found from the
  bit lengths of its numerator and denominator. A binary64 number has 53 significant
  bits, and below \<open>2 ^ (- 1022)\<close> the spacing stays \<open>2 ^ (- 1074)\<close> (subnormal numbers).
\<close>

definition ilog2 :: "rat \<Rightarrow> int" where
  "ilog2 x = (case quotient_of x of (n, d) \<Rightarrow>
     let k = bitlen n - bitlen d in if 2 powi k \<le> x then k else k - 1)"

definition round_half_even :: "rat \<Rightarrow> int" where
  "round_half_even y =
     (let f = \<lfloor>y\<rfloor>; d = y - of_int f
      in if d < 1 / 2 then f else if 1 / 2 < d then f + 1 else if even f then f else f + 1)"

definition round_double :: "rat \<Rightarrow> rat" where
  "round_double q =
     (if q = 0 then 0
      else let t = max (ilog2 \<bar>q\<bar>) (- 1022) - 52;
               m = round_half_even (\<bar>q\<bar> / 2 powi t)
           in sgn q * of_int m * 2 powi t)"

definition true_div :: "int \<Rightarrow> int \<Rightarrow> error + rat" where
  "true_div a b =
     (if b = 0 then Inl ZeroDivisionError
      else let r = round_double (of_int a / of_int b)
           in if 2 ^ 1024 \<le> \<bar>r\<bar> then Inl OverflowError else Inr r)"

definition ratio :: "project \<Rightarrow> error + rat" where
  "ratio p = true_div (val p) (hours p)"

text \<open>\<open>sorted\<close> first computes the key of every element, in list order.\<close>

fun keys_of :: "project list \<Rightarrow> error + (rat \<times> project) list" where
  "keys_of [] = Inr []"
| "keys_of (p # ps) =
     ebind (ratio p) (\<lambda>k. ebind (keys_of ps) (\<lambda>kps. Inr ((k, p) # kps)))"

text \<open>
  \<open>sorted(projects, key=..., reverse=True)\<close>: descending by key and stable (elements with
  equal keys keep their input order), which is a stable ascending sort of the reversed
  list, reversed again.
\<close>

definition sorted_desc :: "project list \<Rightarrow> error + project list" where
  "sorted_desc ps =
     ebind (keys_of ps) (\<lambda>kps. Inr (map snd (rev (sort_key fst (rev kps)))))"

text \<open>The loop over the sorted projects; the state is (total_value, chosen, remaining).\<close>

fun greedy_loop :: "project list \<Rightarrow> int \<times> project list \<times> int \<Rightarrow> int \<times> project list \<times> int" where
  "greedy_loop [] s = s"
| "greedy_loop (p # ps) (total_value, chosen, remaining) =
     (if hours p \<le> remaining
      then greedy_loop ps (total_value + val p, chosen @ [p], remaining - hours p)
      else greedy_loop ps (total_value, chosen, remaining))"

definition greedy_knapsack :: "project list \<Rightarrow> int \<Rightarrow> error + (int \<times> project list)" where
  "greedy_knapsack projects capacity =
     (if capacity \<le> 0 \<or> projects = [] then Inr (0, [])
      else ebind (sorted_desc projects) (\<lambda>sorted_projects.
             case greedy_loop sorted_projects (0, [], capacity) of
               (total_value, chosen, remaining) \<Rightarrow> Inr (total_value, chosen)))"

subsection \<open>recursive_knapsack\<close>

text \<open>
  The inner function \<open>solve(i, remaining)\<close>. It is entered at index 0 only and steps by
  one, so \<open>i \<le> n\<close> on every call and the source's test \<open>i == n\<close> is the test
  \<open>n \<le> i\<close> written here. No indexing can fail: \<open>projects[i]\<close> is read with \<open>i < n\<close>.
  A project that does not fit leaves \<open>value_with = -1\<close> and \<open>list_with = []\<close>.
\<close>

function solve :: "project list \<Rightarrow> nat \<Rightarrow> int \<Rightarrow> int \<times> project list" where
  "solve projects i remaining =
     (if length projects \<le> i \<or> remaining \<le> 0 then (0, [])
      else
        let (value_without, list_without) = solve projects (i + 1) remaining;
            project = projects ! i;
            (value_with, list_with) =
              (if hours project \<le> remaining
               then let (sub_value, sub_list) = solve projects (i + 1) (remaining - hours project)
                    in (sub_value + val project, project # sub_list)
               else (- 1, []))
        in if value_with > value_without then (value_with, list_with)
           else (value_without, list_without))"
  by pat_completeness auto
termination
  by (relation "measure (\<lambda>(projects, i, remaining). length projects - i)") auto

definition recursive_knapsack :: "project list \<Rightarrow> int \<Rightarrow> int \<times> project list" where
  "recursive_knapsack projects capacity = solve projects 0 capacity"

subsection \<open>memoized_knapsack\<close>

text \<open>
  The dictionary \<open>memo\<close>, keyed by \<open>(i, remaining)\<close>, is threaded through the calls: the
  inner function takes the dictionary and returns it updated with its result.
\<close>

type_synonym memo = "nat \<times> int \<rightharpoonup> int \<times> project list"

function solve_memo :: "project list \<Rightarrow> nat \<Rightarrow> int \<Rightarrow> memo \<Rightarrow> (int \<times> project list) \<times> memo" where
  "solve_memo projects i remaining memo =
     (if length projects \<le> i \<or> remaining \<le> 0 then ((0, []), memo)
      else case memo (i, remaining) of
        Some cached \<Rightarrow> (cached, memo)
      | None \<Rightarrow>
          let ((value_without, list_without), memo1) = solve_memo projects (i + 1) remaining memo;
              project = projects ! i;
              ((value_with, list_with), memo2) =
                (if hours project \<le> remaining
                 then let ((sub_value, sub_list), m) =
                            solve_memo projects (i + 1) (remaining - hours project) memo1
                      in ((sub_value + val project, project # sub_list), m)
                 else ((- 1, []), memo1));
              best = (if value_with > value_without then (value_with, list_with)
                      else (value_without, list_without))
          in (best, memo2((i, remaining) \<mapsto> best)))"
  by pat_completeness auto
termination
  by (relation "measure (\<lambda>(projects, i, remaining, memo). length projects - i)") auto

definition memoized_knapsack :: "project list \<Rightarrow> int \<Rightarrow> int \<times> project list" where
  "memoized_knapsack projects capacity = fst (solve_memo projects 0 capacity Map.empty)"

subsection \<open>bottom_up_knapsack\<close>

type_synonym table = "int list list"

text \<open>
  \<open>[[0] * (capacity + 1) for _ in range(n + 1)]\<close>: rows are separate lists, and a
  non-positive repetition count gives the empty list.
\<close>

definition init_table :: "nat \<Rightarrow> int \<Rightarrow> table" where
  "init_table n capacity = replicate (n + 1) (replicate (nat (capacity + 1)) 0)"

text \<open>The body of the inner loop, for row \<open>i\<close> and column \<open>c\<close>.\<close>

definition fill_cell :: "project \<Rightarrow> nat \<Rightarrow> nat \<Rightarrow> table \<Rightarrow> error + table" where
  "fill_cell p i c T =
     ebind (py_get T (int i - 1)) (\<lambda>prev.
     ebind (py_get prev (int c)) (\<lambda>best0.
     ebind (if hours p \<le> int c
            then ebind (py_get prev (int c - hours p)) (\<lambda>x.
                   let cand = x + val p in Inr (if cand > best0 then cand else best0))
            else Inr best0) (\<lambda>best.
     ebind (py_get T (int i)) (\<lambda>row.
     ebind (py_set row (int c) best) (\<lambda>row'.
     py_set T (int i) row')))))"

text \<open>\<open>for c in range(0, capacity + 1)\<close>.\<close>

definition fill_row :: "project \<Rightarrow> nat \<Rightarrow> int \<Rightarrow> table \<Rightarrow> error + table" where
  "fill_row p i capacity T = efold (fill_cell p i) [0..<nat (capacity + 1)] T"

text \<open>\<open>for i in range(1, n + 1)\<close>, from the table of zeros.\<close>

definition build_table :: "project list \<Rightarrow> int \<Rightarrow> error + table" where
  "build_table projects capacity =
     efold (\<lambda>i T. ebind (py_get projects (int i - 1)) (\<lambda>p. fill_row p i capacity T))
       [1..<length projects + 1] (init_table (length projects) capacity)"

text \<open>
  One step of the reconstruction, \<open>for i in range(n, 0, -1)\<close>; the state is
  (chosen, c), and \<open>chosen.append(p)\<close> adds at the end.
\<close>

definition backtrack_step :: "project list \<Rightarrow> table \<Rightarrow> nat \<Rightarrow> project list \<times> int \<Rightarrow> error + (project list \<times> int)" where
  "backtrack_step projects T i s =
     (case s of (chosen, c) \<Rightarrow>
        ebind (py_get T (int i)) (\<lambda>row.
        ebind (py_get row c) (\<lambda>a.
        ebind (py_get T (int i - 1)) (\<lambda>prev.
        ebind (py_get prev c) (\<lambda>b.
        if a \<noteq> b
        then ebind (py_get projects (int i - 1)) (\<lambda>p. Inr (chosen @ [p], c - hours p))
        else Inr (chosen, c))))))"

definition backtrack :: "project list \<Rightarrow> table \<Rightarrow> int \<Rightarrow> error + (project list \<times> int)" where
  "backtrack projects T capacity =
     efold (backtrack_step projects T) (rev [1..<length projects + 1]) ([], capacity)"

definition bottom_up_knapsack :: "project list \<Rightarrow> int \<Rightarrow> error + (int \<times> project list)" where
  "bottom_up_knapsack projects capacity =
     ebind (build_table projects capacity) (\<lambda>T.
     ebind (backtrack projects T capacity) (\<lambda>(chosen, c).
     ebind (py_get T (int (length projects))) (\<lambda>row.
     ebind (py_get row capacity) (\<lambda>v.
     Inr (v, rev chosen)))))"

subsection \<open>The optimum of the 0/1 knapsack problem\<close>

text \<open>
  A subset of the input list is a subsequence of it (a choice of positions). The optimum
  is the largest total value among the subsequences whose hours fit the capacity.
\<close>

definition feasible :: "project list \<Rightarrow> int \<Rightarrow> project list list" where
  "feasible projects capacity =
     filter (\<lambda>sub. hours_sum sub \<le> capacity) (subseqs projects)"

definition optimum :: "project list \<Rightarrow> int \<Rightarrow> int" where
  "optimum projects capacity = Max (set (map value_sum (feasible projects capacity)))"

text \<open>The projects of the scenario in which the greedy selector is not optimal.\<close>

definition X1 :: project where "X1 = \<lparr>name = ''X1'', val = 60, hours = 10\<rparr>"
definition X2 :: project where "X2 = \<lparr>name = ''X2'', val = 100, hours = 20\<rparr>"
definition X3 :: project where "X3 = \<lparr>name = ''X3'', val = 120, hours = 30\<rparr>"

text \<open>A project whose ratio is beyond the range of a float.\<close>

definition Huge :: project where "Huge = \<lparr>name = ''H'', val = 10 ^ 400, hours = 1\<rparr>"

text \<open>Two projects of equal value and hours, on which the two branches of the recursion tie.\<close>

definition Tie1 :: project where "Tie1 = \<lparr>name = ''T1'', val = 5, hours = 2\<rparr>"
definition Tie2 :: project where "Tie2 = \<lparr>name = ''T2'', val = 5, hours = 2\<rparr>"

subsection \<open>Auxiliary definitions for the proofs\<close>

text \<open>
  The recursion of \<open>solve\<close> over the remaining suffix of the project list instead of
  the index: \<open>solve projects i remaining\<close> is \<open>solve_list (drop i projects) remaining\<close>.
\<close>

fun solve_list :: "project list \<Rightarrow> int \<Rightarrow> int \<times> project list" where
  "solve_list [] remaining = (0, [])"
| "solve_list (p # ps) remaining =
     (if remaining \<le> 0 then (0, [])
      else
        let (value_without, list_without) = solve_list ps remaining;
            (value_with, list_with) =
              (if hours p \<le> remaining
               then let (sub_value, sub_list) = solve_list ps (remaining - hours p)
                    in (sub_value + val p, p # sub_list)
               else (- 1, []))
        in if value_with > value_without then (value_with, list_with)
           else (value_without, list_without))"

text \<open>The invariant of the dictionary: every cached entry is the result of \<open>solve\<close>.\<close>

definition memo_ok :: "project list \<Rightarrow> memo \<Rightarrow> bool" where
  "memo_ok ps memo = (\<forall>k v. memo k = Some v \<longrightarrow> v = solve ps (fst k) (snd k))"

text \<open>
  The table of \<open>bottom_up_knapsack\<close> as a value: \<open>dp_cell\<close> is what the inner loop
  stores in one cell, \<open>dp_row\<close> is a finished row, and \<open>picks\<close> is the list that the
  reconstruction records, in recording order (highest index first).
\<close>

definition dp_cell :: "project \<Rightarrow> int list \<Rightarrow> nat \<Rightarrow> int" where
  "dp_cell p prev c =
     (let best0 = prev ! c
      in if hours p \<le> int c
         then let cand = prev ! nat (int c - hours p) + val p
              in if cand > best0 then cand else best0
         else best0)"

fun dp_row :: "project list \<Rightarrow> nat \<Rightarrow> nat \<Rightarrow> int list" where
  "dp_row ps m 0 = replicate m 0"
| "dp_row ps m (Suc i) = map (dp_cell (ps ! i) (dp_row ps m i)) [0..<m]"

definition dp_table :: "project list \<Rightarrow> int \<Rightarrow> table" where
  "dp_table ps capacity = map (dp_row ps (nat (capacity + 1))) [0..<length ps + 1]"

fun picks :: "project list \<Rightarrow> table \<Rightarrow> nat \<Rightarrow> int \<Rightarrow> project list" where
  "picks ps T 0 c = []"
| "picks ps T (Suc j) c =
     (if T ! Suc j ! nat c \<noteq> T ! j ! nat c
      then ps ! j # picks ps T j (c - hours (ps ! j))
      else picks ps T j c)"

section \<open>Lemmas\<close>

declare solve.simps [simp del] solve_memo.simps [simp del]

lemma ebind_Inr [simp]: "ebind (Inr x) f = f x"
  by (simp add: ebind_def)

lemma ebind_Inl [simp]: "ebind (Inl e) f = Inl e"
  by (simp add: ebind_def)

lemma efold_append: "efold f (xs @ ys) s = ebind (efold f xs s) (efold f ys)"
  by (induction xs arbitrary: s) (auto simp: ebind_def split: sum.splits)

lemma py_get_nat: "k < length xs \<Longrightarrow> py_get xs (int k) = Inr (xs ! k)"
  by (simp add: py_get_def)

lemma py_set_nat: "k < length xs \<Longrightarrow> py_set xs (int k) v = Inr (xs[k := v])"
  by (simp add: py_set_def)

lemma solve_list_nonpos: "r \<le> 0 \<Longrightarrow> solve_list ps r = (0, [])"
  by (cases ps) auto

lemma solve_drop: "solve ps i r = solve_list (drop i ps) r"
proof (induction ps i r rule: solve.induct)
  case (1 ps i r)
  show ?case
  proof (cases "length ps \<le> i \<or> r \<le> 0")
    case True
    then show ?thesis
      by (subst solve.simps) (simp add: solve_list_nonpos, cases "drop i ps", auto)
  next
    case False
    then have d: "drop i ps = ps ! i # drop (i + 1) ps"
      by (simp add: Cons_nth_drop_Suc)
    have a: "solve ps (i + 1) r = solve_list (drop (i + 1) ps) r"
      using "1.IH"(1) False by simp
    have b: "hours (ps ! i) \<le> r \<Longrightarrow>
        solve ps (i + 1) (r - hours (ps ! i)) = solve_list (drop (i + 1) ps) (r - hours (ps ! i))"
      using "1.IH"(2)[OF False refl _ refl] by (cases "solve ps (i + 1) r") auto
    show ?thesis
      using False a b by (subst solve.simps, subst d) (simp add: Let_def split: prod.splits)
  qed
qed

lemma fst_solve_list_Cons:
  "fst (solve_list (p # ps) r) =
     (if r \<le> 0 then 0
      else if hours p \<le> r
        then max (fst (solve_list ps r)) (fst (solve_list ps (r - hours p)) + val p)
        else max (fst (solve_list ps r)) (- 1))"
  by (auto simp: Let_def split: prod.splits)

lemma fst_solve_list_nonneg: "0 \<le> fst (solve_list ps r)"
  by (induction ps arbitrary: r) (auto simp: fst_solve_list_Cons le_max_iff_disj simp del: solve_list.simps(2))

lemma snd_solve_list_Cons:
  "snd (solve_list (p # ps) r) =
     (if 0 < r \<and> hours p \<le> r \<and> fst (solve_list ps r) < fst (solve_list ps (r - hours p)) + val p
      then p # snd (solve_list ps (r - hours p))
      else snd (solve_list ps r))"
  using fst_solve_list_nonneg[of ps r]
  by (auto simp: Let_def solve_list_nonpos split: prod.splits)

lemma subseq_solve_list: "subseq (snd (solve_list ps r)) ps"
  by (induction ps arbitrary: r) (auto simp: snd_solve_list_Cons simp del: solve_list.simps(2))

lemma fst_solve_list_step:
  "fst (solve_list (p # ps) r) =
     (if 0 < r \<and> hours p \<le> r \<and> fst (solve_list ps r) < fst (solve_list ps (r - hours p)) + val p
      then fst (solve_list ps (r - hours p)) + val p
      else fst (solve_list ps r))"
  using fst_solve_list_nonneg[of ps r]
  by (auto simp: Let_def solve_list_nonpos split: prod.splits)

lemma value_sum_solve_list: "value_sum (snd (solve_list ps r)) = fst (solve_list ps r)"
  by (induction ps arbitrary: r)
     (simp_all add: snd_solve_list_Cons fst_solve_list_step value_sum_def del: solve_list.simps(2))

lemma hours_sum_solve_list: "0 \<le> r \<Longrightarrow> hours_sum (snd (solve_list ps r)) \<le> r"
proof (induction ps arbitrary: r)
  case Nil
  then show ?case by (simp add: hours_sum_def)
next
  case (Cons p ps)
  show ?case
    using Cons.IH[of r] Cons.IH[of "r - hours p"] Cons.prems
    by (auto simp: snd_solve_list_Cons hours_sum_def simp del: solve_list.simps(2))
qed


lemma subseq_mset_subset: "subseq xs ys \<Longrightarrow> mset xs \<subseteq># mset ys"
  by (induction rule: list_emb.induct) (auto intro: subset_mset.order_trans)

lemma hours_sum_nonneg: "\<forall>p\<in>set ys. 0 < hours p \<Longrightarrow> 0 \<le> hours_sum ys"
  by (induction ys) (auto simp: hours_sum_def)

lemma hours_sum_pos_nil:
  "\<forall>p\<in>set ys. 0 < hours p \<Longrightarrow> hours_sum ys \<le> 0 \<Longrightarrow> ys = []"
  using hours_sum_nonneg[of "tl ys"] by (cases ys) (auto simp: hours_sum_def)

lemma solve_list_upper:
  "\<forall>p\<in>set ps. 0 < hours p \<Longrightarrow> mset ys \<subseteq># mset ps \<Longrightarrow> hours_sum ys \<le> r
     \<Longrightarrow> value_sum ys \<le> fst (solve_list ps r)"
proof (induction ps arbitrary: ys r)
  case Nil
  then show ?case by (simp add: value_sum_def)
next
  case (Cons p ps)
  have pos: "\<forall>q\<in>set ys. 0 < hours q"
    using Cons.prems(1) set_mset_mono[OF Cons.prems(2)] by auto
  show ?case
  proof (cases "r \<le> 0")
    case True
    then have "ys = []" using hours_sum_pos_nil[OF pos] Cons.prems(3) by simp
    then show ?thesis using True by (simp add: value_sum_def)
  next
    case False
    show ?thesis
    proof (cases "p \<in> set ys")
      case True
      let ?zs = "remove1 p ys"
      have sub: "mset ?zs \<subseteq># mset ps"
        using Cons.prems(2) True by (simp add: subset_eq_diff_conv)
      have hs: "hours_sum ys = hours p + hours_sum ?zs"
        using True by (simp add: hours_sum_def sum_list_map_remove1)
      have vs: "value_sum ys = val p + value_sum ?zs"
        using True by (simp add: value_sum_def sum_list_map_remove1)
      have "0 \<le> hours_sum ?zs"
        using pos by (intro hours_sum_nonneg) (auto dest: notin_set_remove1)
      then have fit: "hours p \<le> r" using hs Cons.prems(3) by simp
      have "value_sum ?zs \<le> fst (solve_list ps (r - hours p))"
        using Cons.IH[OF _ sub] Cons.prems(1,3) hs by simp
      then show ?thesis
        using vs fit False by (simp add: fst_solve_list_step del: solve_list.simps(2))
    next
      case notin: False
      have "mset ys \<subseteq># mset ps"
        using Cons.prems(2) notin subset_eq_diff_conv[of "mset ys" "{#p#}" "mset ps"]
        by (simp add: diff_single_trivial)
      then have "value_sum ys \<le> fst (solve_list ps r)"
        using Cons.IH Cons.prems(1,3) by simp
      then show ?thesis
        by (simp add: fst_solve_list_step del: solve_list.simps(2))
    qed
  qed
qed


lemma optimum_solve_list:
  assumes "\<forall>p\<in>set ps. 0 < hours p" "0 \<le> r"
  shows "optimum ps r = fst (solve_list ps r)"
  unfolding optimum_def
proof (rule Max_eqI)
  show "finite (set (map value_sum (feasible ps r)))" by simp
next
  fix v assume "v \<in> set (map value_sum (feasible ps r))"
  then obtain sub where s: "v = value_sum sub" "subseq sub ps" "hours_sum sub \<le> r"
    by (auto simp: feasible_def)
  show "v \<le> fst (solve_list ps r)"
    using solve_list_upper[OF assms(1) subseq_mset_subset[OF s(2)] s(3)] s(1) by simp
next
  have "snd (solve_list ps r) \<in> set (feasible ps r)"
    using subseq_solve_list[of ps r] hours_sum_solve_list[OF assms(2), of ps]
    by (simp add: feasible_def)
  then have "value_sum (snd (solve_list ps r)) \<in> set (map value_sum (feasible ps r))"
    by (metis image_eqI set_map)
  then show "fst (solve_list ps r) \<in> set (map value_sum (feasible ps r))"
    by (simp only: value_sum_solve_list)
qed

lemma solve_list_mset_le:
  assumes "\<forall>p\<in>set qs. 0 < hours p" "mset ps = mset qs" "0 \<le> r"
  shows "fst (solve_list ps r) \<le> fst (solve_list qs r)"
proof -
  have "mset (snd (solve_list ps r)) \<subseteq># mset qs"
    using subseq_mset_subset[OF subseq_solve_list[of ps r]] assms(2) by simp
  from solve_list_upper[OF assms(1) this hours_sum_solve_list[OF assms(3)]]
  show ?thesis by (simp only: value_sum_solve_list)
qed

lemma solve_list_mset:
  assumes "\<forall>p\<in>set ps. 0 < hours p" "mset ps = mset qs" "0 \<le> r"
  shows "fst (solve_list ps r) = fst (solve_list qs r)"
proof -
  have "set qs = set ps" using assms(2) by (metis set_mset_mset)
  then have q: "\<forall>p\<in>set qs. 0 < hours p" using assms(1) by simp
  show ?thesis
    using solve_list_mset_le[OF q assms(2) assms(3)]
          solve_list_mset_le[OF assms(1) assms(2)[symmetric] assms(3)] by simp
qed

lemma solve_memo_solve:
  "memo_ok ps memo \<Longrightarrow>
     fst (solve_memo ps i r memo) = solve ps i r \<and> memo_ok ps (snd (solve_memo ps i r memo))"
proof (induction ps i r memo rule: solve_memo.induct)
  case (1 ps i r memo)
  show ?case
  proof (cases "length ps \<le> i \<or> r \<le> 0")
    case True
    then show ?thesis using "1.prems"
      by (subst (1 2) solve_memo.simps, subst solve.simps) simp
  next
    case False
    show ?thesis
    proof (cases "memo (i, r)")
      case (Some cached)
      then have "cached = solve ps i r" using "1.prems" unfolding memo_ok_def by (metis fst_conv snd_conv)
      then show ?thesis using False Some "1.prems" by (subst (1 2) solve_memo.simps) simp
    next
      case None
      obtain wo m1 where w: "solve_memo ps (i + 1) r memo = (wo, m1)"
        by (cases "solve_memo ps (i + 1) r memo")
      have ih1: "wo = solve ps (i + 1) r" "memo_ok ps m1"
        using "1.IH"(1)[OF False None "1.prems"] w by auto
      obtain sub m2 where s: "solve_memo ps (i + 1) (r - hours (ps ! i)) m1 = (sub, m2)"
        by (cases "solve_memo ps (i + 1) (r - hours (ps ! i)) m1")
      have ih2: "hours (ps ! i) \<le> r \<Longrightarrow> sub = solve ps (i + 1) (r - hours (ps ! i)) \<and> memo_ok ps m2"
        using "1.IH"(2)[OF False None refl w[symmetric] prod.collapse refl _ ih1(2)] s
        by auto
      have upd: "\<And>m v. memo_ok ps m \<Longrightarrow> v = solve ps i r \<Longrightarrow> memo_ok ps (m((i, r) \<mapsto> v))"
        by (auto simp: memo_ok_def)
      show ?thesis
      proof (cases "hours (ps ! i) \<le> r")
        case True
        define best where "best = (if fst wo < fst sub + val (ps ! i)
                                   then (fst sub + val (ps ! i), ps ! i # snd sub) else wo)"
        have sm: "solve_memo ps i r memo = (best, m2((i, r) \<mapsto> best))"
          using False None w s True
          by (subst solve_memo.simps) (simp add: Let_def best_def split: prod.splits)
        have sr: "solve ps i r = best"
          using False True ih1(1) ih2[OF True]
          by (subst solve.simps) (simp add: Let_def best_def split: prod.splits)
        have ok: "memo_ok ps (m2((i, r) \<mapsto> best))"
          using upd[of m2 best] ih2[OF True] sr by simp
        show ?thesis using sr ok by (simp only: sm fst_conv snd_conv simp_thms)
      next
        case nofit: False
        define best where "best = (if fst wo < - 1 then (- 1, []) else wo)"
        have sm: "solve_memo ps i r memo = (best, m1((i, r) \<mapsto> best))"
          using False None w nofit
          by (subst solve_memo.simps) (simp add: Let_def best_def split: prod.splits)
        have sr: "solve ps i r = best"
          using False nofit ih1(1)
          by (subst solve.simps) (simp add: Let_def best_def split: prod.splits)
        have ok: "memo_ok ps (m1((i, r) \<mapsto> best))"
          using upd[of m1 best] ih1(2) sr by simp
        show ?thesis using sr ok by (simp only: sm fst_conv snd_conv simp_thms)
      qed
    qed
  qed
qed

lemma efold_single [simp]: "efold f [x] s = f x s"
  by (cases "f x s") (simp_all add: ebind_def)

lemma length_dp_row [simp]: "length (dp_row ps m i) = m"
  by (cases i) auto

lemma fill_cell_ok:
  assumes "0 < i" "i < length T" "c < length (T ! i)" "length (T ! (i - 1)) = length (T ! i)"
    "0 \<le> hours p"
  shows "fill_cell p i c T = Inr (T[i := (T ! i)[c := dp_cell p (T ! (i - 1)) c]])"
proof -
  have a: "py_get T (int i - 1) = Inr (T ! (i - 1))"
    using assms(1,2) py_get_nat[of "i - 1" T] by (simp add: of_nat_diff)
  have b: "py_get (T ! (i - 1)) (int c) = Inr (T ! (i - 1) ! c)"
    using assms(3,4) by (simp add: py_get_nat)
  have c: "hours p \<le> int c \<Longrightarrow>
      py_get (T ! (i - 1)) (int c - hours p) = Inr (T ! (i - 1) ! nat (int c - hours p))"
    using assms(3,4,5) by (simp add: py_get_def)
  have d: "py_get T (int i) = Inr (T ! i)"
    using assms(2) by (simp add: py_get_nat)
  show ?thesis
  proof (cases "hours p \<le> int c")
    case True
    show ?thesis
      unfolding fill_cell_def dp_cell_def Let_def
      by (simp only: a b c[OF True] d ebind_Inr True if_True
            py_set_nat[OF assms(3)] py_set_nat[OF assms(2)])
  next
    case False
    show ?thesis
      unfolding fill_cell_def dp_cell_def Let_def
      by (simp only: a b d ebind_Inr False if_False
            py_set_nat[OF assms(3)] py_set_nat[OF assms(2)])
  qed
qed

lemma fill_row_prefix:
  assumes "0 < i" "i < length T" "length (T ! (i - 1)) = length (T ! i)" "0 \<le> hours p"
    "k \<le> length (T ! i)"
  shows "efold (fill_cell p i) [0..<k] T =
           Inr (T[i := map (dp_cell p (T ! (i - 1))) [0..<k] @ drop k (T ! i)])"
  using assms(5)
proof (induction k)
  case 0
  then show ?case by simp
next
  case (Suc k)
  let ?T = "T[i := map (dp_cell p (T ! (i - 1))) [0..<k] @ drop k (T ! i)]"
  have len: "length (?T ! i) = length (T ! i)" using assms(2) Suc.prems by simp
  have prev: "?T ! (i - 1) = T ! (i - 1)" using assms(1) by simp
  have step: "fill_cell p i k ?T = Inr (?T[i := (?T ! i)[k := dp_cell p (?T ! (i - 1)) k]])"
    using assms Suc.prems len prev by (intro fill_cell_ok) auto
  have upd: "(map (dp_cell p (T ! (i - 1))) [0..<k] @ drop k (T ! i))[k := dp_cell p (T ! (i - 1)) k]
      = map (dp_cell p (T ! (i - 1))) [0..<Suc k] @ drop (Suc k) (T ! i)"
    using Suc.prems by (simp add: list_update_append upd_conv_take_nth_drop Cons_nth_drop_Suc[symmetric])
  show ?case
    using Suc.IH Suc.prems assms(2) step upd prev
    by (simp add: efold_append del: upt_Suc) (simp add: efold_append)
qed


lemma fill_row_ok:
  assumes "0 < i" "i < length T" "length (T ! (i - 1)) = nat (capacity + 1)"
    "length (T ! i) = nat (capacity + 1)" "0 \<le> hours p"
  shows "fill_row p i capacity T =
           Inr (T[i := map (dp_cell p (T ! (i - 1))) [0..<nat (capacity + 1)]])"
  using fill_row_prefix[of i T p "nat (capacity + 1)"] assms
  by (simp add: fill_row_def)

lemma build_table_prefix:
  assumes "\<forall>p\<in>set ps. 0 \<le> hours p" "j \<le> length ps"
  shows "efold (\<lambda>i T. ebind (py_get ps (int i - 1)) (\<lambda>p. fill_row p i capacity T))
           [1..<j + 1] (init_table (length ps) capacity) =
         Inr (map (dp_row ps (nat (capacity + 1))) [0..<j + 1]
              @ replicate (length ps - j) (replicate (nat (capacity + 1)) 0))"
  using assms(2)
proof (induction j)
  case 0
  then show ?case by (simp add: init_table_def replicate_Suc[symmetric] del: replicate_Suc)
next
  case (Suc j)
  let ?m = "nat (capacity + 1)"
  let ?T = "map (dp_row ps ?m) [0..<j + 1] @ replicate (length ps - j) (replicate ?m 0)"
  have get: "py_get ps (int (Suc j) - 1) = Inr (ps ! j)"
    using Suc.prems py_get_nat[of j ps] by simp
  have h: "0 \<le> hours (ps ! j)" using assms(1) Suc.prems by simp
  have Tj: "?T ! j = dp_row ps ?m j"
    by (simp add: nth_append del: upt_Suc)
  have TSj: "?T ! Suc j = replicate ?m 0"
    using Suc.prems by (simp add: nth_append del: upt_Suc)
  have row: "fill_row (ps ! j) (Suc j) capacity ?T =
      Inr (?T[Suc j := map (dp_cell (ps ! j) (?T ! (Suc j - 1))) [0..<?m]])"
    using Suc.prems h Tj TSj by (intro fill_row_ok) (simp_all del: upt_Suc)
  have rep: "replicate (length ps - j) (replicate ?m (0::int)) =
      replicate ?m 0 # replicate (length ps - Suc j) (replicate ?m 0)"
    using Suc.prems by (metis Suc_diff_Suc Suc_le_lessD replicate_Suc)
  have upd: "?T[Suc j := map (dp_cell (ps ! j) (?T ! (Suc j - 1))) [0..<?m]] =
      map (dp_row ps ?m) [0..<Suc j + 1] @ replicate (length ps - Suc j) (replicate ?m 0)"
    apply (subst rep)
    apply (simp add: list_update_append Tj del: upt_Suc dp_row.simps replicate_Suc)
    apply (simp add: Tj[simplified])
    done
  have "efold (\<lambda>i T. ebind (py_get ps (int i - 1)) (\<lambda>p. fill_row p i capacity T))
           [1..<Suc j + 1] (init_table (length ps) capacity) =
        ebind (Inr ?T) (efold (\<lambda>i T. ebind (py_get ps (int i - 1)) (\<lambda>p. fill_row p i capacity T)) [Suc j])"
    using Suc.IH Suc.prems by (simp add: efold_append del: efold.simps)
  also have "\<dots> = fill_row (ps ! j) (Suc j) capacity ?T"
    using get by (simp del: efold.simps upt_Suc)
  finally show ?case using row upd by simp
qed

lemma build_table_ok:
  assumes "\<forall>p\<in>set ps. 0 \<le> hours p"
  shows "build_table ps capacity = Inr (dp_table ps capacity)"
  using build_table_prefix[OF assms, of "length ps" capacity]
  by (simp add: build_table_def dp_table_def)


lemma py_get_int: "0 \<le> k \<Longrightarrow> k < int (length xs) \<Longrightarrow> py_get xs k = Inr (xs ! nat k)"
  by (simp add: py_get_def)

lemma dp_row_solve_list:
  assumes "\<forall>p\<in>set ps. 0 < hours p" "i \<le> length ps" "c < m"
  shows "dp_row ps m i ! c = fst (solve_list (rev (take i ps)) (int c))"
  using assms(2,3)
proof (induction i arbitrary: c)
  case 0
  then show ?case by simp
next
  case (Suc i)
  let ?p = "ps ! i"
  let ?qs = "rev (take i ps)"
  have h: "0 < hours ?p" using assms(1) Suc.prems(1) by simp
  have tk: "rev (take (Suc i) ps) = ?p # ?qs"
    using Suc.prems(1) by (simp add: take_Suc_conv_app_nth)
  have ih: "\<And>d. d < m \<Longrightarrow> dp_row ps m i ! d = fst (solve_list ?qs (int d))"
    using Suc.IH Suc.prems(1) by simp
  have cell: "dp_row ps m (Suc i) ! c = dp_cell ?p (dp_row ps m i) c"
    using Suc.prems(2) by simp
  show ?case
  proof (cases "hours ?p \<le> int c")
    case True
    have "nat (int c - hours ?p) < m" using True h Suc.prems(2) by linarith
    from ih[OF this] have sub: "dp_row ps m i ! nat (int c - hours ?p) =
        fst (solve_list ?qs (int c - hours ?p))"
      using True by simp
    show ?thesis
      using True h sub ih[OF Suc.prems(2)]
      by (simp only: cell tk fst_solve_list_step dp_cell_def Let_def) auto
  next
    case False
    show ?thesis
      using False ih[OF Suc.prems(2)]
      by (simp only: cell tk fst_solve_list_step dp_cell_def Let_def) auto
  qed
qed

lemma dp_row_optimum:
  assumes "\<forall>p\<in>set ps. 0 < hours p" "i \<le> length ps" "c < m"
  shows "dp_row ps m i ! c = optimum (take i ps) (int c)"
proof -
  have pos: "\<forall>p\<in>set (take i ps). 0 < hours p"
    using assms(1) by (meson in_set_takeD)
  have "fst (solve_list (rev (take i ps)) (int c)) = fst (solve_list (take i ps) (int c))"
    using pos by (intro solve_list_mset) auto
  then show ?thesis
    using dp_row_solve_list[OF assms] optimum_solve_list[OF pos, of "int c"] by simp
qed

lemma dp_table_nth:
  "j \<le> length ps \<Longrightarrow> dp_table ps capacity ! j = dp_row ps (nat (capacity + 1)) j"
  unfolding dp_table_def by (simp del: upt_Suc)

lemma length_dp_table [simp]: "length (dp_table ps capacity) = length ps + 1"
  by (simp add: dp_table_def)

lemma dp_table_step:
  assumes "j < length ps" "0 \<le> c" "c \<le> capacity"
    "dp_table ps capacity ! Suc j ! nat c \<noteq> dp_table ps capacity ! j ! nat c"
  shows "hours (ps ! j) \<le> c \<and>
         dp_table ps capacity ! Suc j ! nat c =
           dp_table ps capacity ! j ! nat (c - hours (ps ! j)) + val (ps ! j)"
proof -
  have "nat c < nat (capacity + 1)" using assms(2,3) by simp
  then have "dp_table ps capacity ! Suc j ! nat c =
      dp_cell (ps ! j) (dp_table ps capacity ! j) (nat c)"
    using assms(1) by (simp add: dp_table_nth)
  then show ?thesis
    using assms(2,4) by (auto simp: dp_cell_def Let_def split: if_splits)
qed


lemma backtrack_step_ok:
  assumes "\<forall>p\<in>set ps. 0 \<le> hours p" "j < length ps" "0 \<le> c" "c \<le> capacity"
  shows "backtrack_step ps (dp_table ps capacity) (Suc j) (chosen, c) =
           Inr (if dp_table ps capacity ! Suc j ! nat c \<noteq> dp_table ps capacity ! j ! nat c
                then (chosen @ [ps ! j], c - hours (ps ! j)) else (chosen, c))"
proof -
  let ?T = "dp_table ps capacity"
  have a: "py_get ?T (int (Suc j)) = Inr (?T ! Suc j)"
    using assms(2) by (intro py_get_nat) simp
  have b: "py_get ?T (int (Suc j) - 1) = Inr (?T ! j)"
    using assms(2) py_get_nat[of j ?T] by simp
  have c1: "py_get (?T ! Suc j) c = Inr (?T ! Suc j ! nat c)"
    using assms(2,3,4) by (intro py_get_int) (simp_all add: dp_table_nth)
  have c2: "py_get (?T ! j) c = Inr (?T ! j ! nat c)"
    using assms(2,3,4) by (intro py_get_int) (simp_all add: dp_table_nth)
  have p: "py_get ps (int (Suc j) - 1) = Inr (ps ! j)"
    using assms(2) py_get_nat[of j ps] by simp
  show ?thesis
    unfolding backtrack_step_def
    by (simp only: prod.case a b c1 c2 p ebind_Inr if_distrib[of Inr] cong: if_cong)
qed

lemma backtrack_prefix:
  assumes "\<forall>p\<in>set ps. 0 \<le> hours p" "j \<le> length ps" "0 \<le> c" "c \<le> capacity"
  shows "\<exists>c'. efold (backtrack_step ps (dp_table ps capacity)) (rev [1..<j + 1]) (chosen, c) =
           Inr (chosen @ picks ps (dp_table ps capacity) j c, c')"
  using assms(2,3,4)
proof (induction j arbitrary: chosen c)
  case 0
  then show ?case by simp
next
  case (Suc j)
  let ?T = "dp_table ps capacity"
  have r: "rev [1..<Suc j + 1] = Suc j # rev [1..<j + 1]" by simp
  have jl: "j < length ps" using Suc.prems(1) by simp
  note step = backtrack_step_ok[OF assms(1) jl Suc.prems(2,3), of chosen]
  show ?case
  proof (cases "?T ! Suc j ! nat c \<noteq> ?T ! j ! nat c")
    case True
    from dp_table_step[OF jl Suc.prems(2,3) True] have fit: "hours (ps ! j) \<le> c" by simp
    have h: "0 \<le> hours (ps ! j)" using assms(1) jl by simp
    obtain c' where "efold (backtrack_step ps ?T) (rev [1..<j + 1]) (chosen @ [ps ! j], c - hours (ps ! j)) =
        Inr ((chosen @ [ps ! j]) @ picks ps ?T j (c - hours (ps ! j)), c')"
      using Suc.IH[of "c - hours (ps ! j)" "chosen @ [ps ! j]"] jl fit h Suc.prems(3) by auto
    then show ?thesis
      using True step by (simp only: r efold.simps ebind_Inr if_True picks.simps) simp
  next
    case False
    obtain c' where "efold (backtrack_step ps ?T) (rev [1..<j + 1]) (chosen, c) =
        Inr (chosen @ picks ps ?T j c, c')"
      using Suc.IH[of c chosen] jl Suc.prems(2,3) by auto
    then show ?thesis
      using False step by (simp only: r efold.simps ebind_Inr if_False picks.simps) simp
  qed
qed

lemma picks_value:
  assumes "j \<le> length ps" "0 \<le> c" "c \<le> capacity" "\<forall>p\<in>set ps. 0 \<le> hours p"
  shows "value_sum (picks ps (dp_table ps capacity) j c) = dp_table ps capacity ! j ! nat c"
  using assms(1,2,3)
proof (induction j arbitrary: c)
  case 0
  then show ?case by (simp add: value_sum_def dp_table_nth)
next
  case (Suc j)
  let ?T = "dp_table ps capacity"
  have jl: "j < length ps" using Suc.prems(1) by simp
  have h: "0 \<le> hours (ps ! j)" using assms(4) jl by simp
  show ?case
  proof (cases "?T ! Suc j ! nat c \<noteq> ?T ! j ! nat c")
    case True
    note st = dp_table_step[OF jl Suc.prems(2,3) True]
    have "value_sum (picks ps ?T j (c - hours (ps ! j))) = ?T ! j ! nat (c - hours (ps ! j))"
      using Suc.IH[of "c - hours (ps ! j)"] jl st h Suc.prems(3) by simp
    then show ?thesis using True st by (simp add: value_sum_def)
  next
    case False
    then show ?thesis using Suc.IH[of c] jl Suc.prems(2,3) by simp
  qed
qed

lemma picks_hours:
  assumes "j \<le> length ps" "0 \<le> c" "c \<le> capacity" "\<forall>p\<in>set ps. 0 \<le> hours p"
  shows "hours_sum (picks ps (dp_table ps capacity) j c) \<le> c"
  using assms(1,2,3)
proof (induction j arbitrary: c)
  case 0
  then show ?case by (simp add: hours_sum_def)
next
  case (Suc j)
  let ?T = "dp_table ps capacity"
  have jl: "j < length ps" using Suc.prems(1) by simp
  have h: "0 \<le> hours (ps ! j)" using assms(4) jl by simp
  show ?case
  proof (cases "?T ! Suc j ! nat c \<noteq> ?T ! j ! nat c")
    case True
    note st = dp_table_step[OF jl Suc.prems(2,3) True]
    have "hours_sum (picks ps ?T j (c - hours (ps ! j))) \<le> c - hours (ps ! j)"
      using Suc.IH[of "c - hours (ps ! j)"] jl st h Suc.prems(3) by simp
    then show ?thesis using True by (simp add: hours_sum_def)
  next
    case False
    then show ?thesis using Suc.IH[of c] jl Suc.prems(2,3) by simp
  qed
qed

lemma picks_subseq: "j \<le> length ps \<Longrightarrow> subseq (rev (picks ps T j c)) (take j ps)"
proof (induction j arbitrary: c)
  case 0
  then show ?case by simp
next
  case (Suc j)
  then have tk: "take (Suc j) ps = take j ps @ [ps ! j]"
    by (simp add: take_Suc_conv_app_nth)
  have ih: "\<And>d. subseq (rev (picks ps T j d)) (take j ps)" using Suc by simp
  show ?case
    using ih by (auto simp: tk intro: list_emb_append_mono subseq_order.order_trans)
qed

lemma bottom_up_ok:
  assumes "\<forall>p\<in>set ps. 0 \<le> hours p" "0 \<le> capacity"
  shows "bottom_up_knapsack ps capacity =
           Inr (dp_table ps capacity ! length ps ! nat capacity,
                rev (picks ps (dp_table ps capacity) (length ps) capacity))"
proof -
  let ?T = "dp_table ps capacity"
  obtain c' where bt: "backtrack ps ?T capacity = Inr (picks ps ?T (length ps) capacity, c')"
    using backtrack_prefix[OF assms(1) le_refl assms(2) order_refl, of "[]"]
    by (auto simp: backtrack_def)
  have a: "py_get ?T (int (length ps)) = Inr (?T ! length ps)"
    by (intro py_get_nat) simp
  have b: "py_get (?T ! length ps) capacity = Inr (?T ! length ps ! nat capacity)"
    using assms(2) by (intro py_get_int) (simp_all add: dp_table_nth)
  show ?thesis
    unfolding bottom_up_knapsack_def
    by (simp only: build_table_ok[OF assms(1)] bt a b ebind_Inr prod.case)
qed


subsection \<open>The sort key of the greedy selector\<close>

lemma bitlen_powi_bounds:
  assumes "0 < n"
  shows "(2::rat) powi (bitlen n - 1) \<le> of_int n" "of_int n < (2::rat) powi bitlen n"
proof -
  have b1: "1 \<le> bitlen n"
    using assms bitlen_eq_zero_iff[of n] bitlen_nonneg[of n] by linarith
  have e1: "(2::rat) powi (bitlen n - 1) = 2 ^ nat (bitlen n - 1)"
    using b1 by (simp add: power_int_def)
  have e2: "(2::rat) powi bitlen n = 2 ^ nat (bitlen n)"
    using b1 by (simp add: power_int_def)
  have "(of_int (2 ^ nat (bitlen n - 1)) :: rat) \<le> of_int n"
    using bitlen_bounds[OF assms] by (subst of_int_le_iff) simp
  then show "(2::rat) powi (bitlen n - 1) \<le> of_int n" by (simp add: e1)
  have "(of_int n :: rat) < of_int (2 ^ nat (bitlen n))"
    using bitlen_bounds[OF assms] by (subst of_int_less_iff) simp
  then show "of_int n < (2::rat) powi bitlen n" by (simp add: e2)
qed

lemma ilog2_bounds:
  assumes "0 < x"
  shows "2 powi ilog2 x \<le> x \<and> x < 2 powi (ilog2 x + 1)"
proof -
  obtain n d where nd: "quotient_of x = (n, d)" by (cases "quotient_of x")
  have d: "0 < d" using quotient_of_denom_pos[OF nd] .
  have x: "x = of_int n / of_int d" using quotient_of_div[OF nd] .
  have n: "0 < n" using assms d x by (simp add: zero_less_divide_iff)
  let ?k = "bitlen n - bitlen d"
  note bn = bitlen_powi_bounds[OF n]
  note bd = bitlen_powi_bounds[OF d]
  have dpos: "(0::rat) < of_int d" using d by simp
  have p: "(0::rat) < 2 powi j" for j by simp
  have "(2::rat) powi (?k - 1) = 2 powi (bitlen n - 1) / 2 powi bitlen d"
    by (simp add: power_int_diff)
  also have "\<dots> \<le> of_int n / 2 powi bitlen d"
    using bn(1) by (simp add: divide_right_mono)
  also have "\<dots> \<le> of_int n / of_int d"
    using bd(2) n dpos by (intro divide_left_mono) (simp_all add: less_imp_le)
  finally have lo: "(2::rat) powi (?k - 1) \<le> x" by (simp add: x)
  have "x = of_int n / of_int d" by (rule x)
  also have "\<dots> < 2 powi bitlen n / of_int d"
    using bn(2) dpos by (simp add: divide_strict_right_mono)
  also have "\<dots> \<le> 2 powi bitlen n / 2 powi (bitlen d - 1)"
    using bd(1) dpos by (intro divide_left_mono) simp_all
  also have "\<dots> = (2::rat) powi (?k + 1)"
    by (simp add: power_int_diff power_int_add)
  finally have hi: "x < (2::rat) powi (?k + 1)" .
  show ?thesis
    using lo hi by (auto simp: ilog2_def nd Let_def)
qed

lemma round_half_even_bounds:
  assumes "0 \<le> y"
  shows "0 \<le> round_half_even y \<and> of_int (round_half_even y) \<le> y + 1"
proof -
  have f: "0 \<le> \<lfloor>y\<rfloor>" using assms by simp
  have fl: "(of_int \<lfloor>y\<rfloor> :: rat) \<le> y" by (rule of_int_floor_le)
  have "0 \<le> round_half_even y"
    using f by (simp add: round_half_even_def Let_def)
  moreover have "round_half_even y \<le> \<lfloor>y\<rfloor> + 1"
    by (simp add: round_half_even_def Let_def)
  then have "(of_int (round_half_even y) :: rat) \<le> of_int (\<lfloor>y\<rfloor> + 1)"
    by (subst of_int_le_iff)
  then have "(of_int (round_half_even y) :: rat) \<le> y + 1"
    using fl by (simp del: of_int_floor_le)
  ultimately show ?thesis by simp
qed

lemma round_double_bound:
  assumes "\<bar>q\<bar> < 2 powi E" "0 \<le> E"
  shows "\<bar>round_double q\<bar> < 2 powi (E + 1)"
proof (cases "q = 0")
  case True
  then show ?thesis by (simp add: round_double_def)
next
  case False
  let ?x = "\<bar>q\<bar>"
  let ?t = "max (ilog2 ?x) (- 1022) - 52"
  let ?m = "round_half_even (?x / 2 powi ?t)"
  have xpos: "0 < ?x" using False by simp
  have "(2::rat) powi ilog2 ?x < 2 powi E"
    using ilog2_bounds[OF xpos] assms(1) by simp
  then have "ilog2 ?x < E"
    using assms(2) by (intro power_int_le_imp_less_exp[of "2::rat"]) simp_all
  then have t: "?t \<le> E" using assms(2) by simp
  have tp: "(0::rat) < 2 powi ?t" by simp
  have y: "0 \<le> ?x / 2 powi ?t" by simp
  note rb = round_half_even_bounds[OF y]
  have r: "\<bar>round_double q\<bar> = of_int ?m * 2 powi ?t"
    using False rb by (simp add: round_double_def Let_def abs_mult)
  have "of_int ?m * 2 powi ?t \<le> (?x / 2 powi ?t + 1) * 2 powi ?t"
    using rb tp by (intro mult_right_mono) simp_all
  also have "\<dots> = ?x + 2 powi ?t"
    by (simp add: distrib_right)
  also have "\<dots> \<le> ?x + 2 powi E"
    using t by (intro add_left_mono power_int_increasing) simp_all
  also have "\<dots> < 2 powi E + 2 powi E"
    using assms(1) by (intro add_strict_right_mono)
  also have "\<dots> = 2 powi (E + 1)"
    by (simp add: power_int_add)
  finally show ?thesis by (simp only: r)
qed

lemma true_div_in_range:
  assumes "0 < b" "\<bar>a\<bar> < 2 ^ 1023"
  shows "\<exists>r. true_div a b = Inr r"
proof -
  have b1: "(1::rat) \<le> of_int b" using assms(1) by simp
  have "\<bar>(of_int a :: rat) / of_int b\<bar> = \<bar>of_int a\<bar> / of_int b"
    using assms(1) by simp
  also have "\<dots> \<le> \<bar>of_int a\<bar> / 1"
    using b1 by (intro divide_left_mono) simp_all
  also have "\<dots> = of_int \<bar>a\<bar>" by simp
  also have "\<dots> < of_int (2 ^ 1023)"
    using assms(2) by (subst of_int_less_iff)
  also have "\<dots> = (2::rat) powi 1023"
    by (simp only: power_int_numeral of_int_power of_int_numeral)
  finally have "\<bar>round_double (of_int a / of_int b)\<bar> < 2 powi (1023 + 1)"
    by (intro round_double_bound) simp_all
  also have "\<dots> = (2::rat) ^ 1024"
    by (simp only: power_int_numeral[symmetric]) simp
  finally show ?thesis
    using assms(1) by (simp only: true_div_def Let_def) (simp del: power_numeral)
qed


lemma ilog2_ge_iff:
  assumes "0 < x"
  shows "(2 powi E \<le> x) = (E \<le> ilog2 x)"
proof
  assume "2 powi E \<le> x"
  then have "(2::rat) powi E < 2 powi (ilog2 x + 1)"
    using ilog2_bounds[OF assms] by simp
  then have "E < ilog2 x + 1"
    by (metis not_le power_int_increasing one_le_numeral)
  then show "E \<le> ilog2 x" by simp
next
  assume "E \<le> ilog2 x"
  then have "(2::rat) powi E \<le> 2 powi ilog2 x"
    by (intro power_int_increasing) simp_all
  then show "2 powi E \<le> x"
    using ilog2_bounds[OF assms] by simp
qed

lemma true_div_code [code]:
  "true_div a b =
     (if b = 0 then Inl ZeroDivisionError
      else let r = round_double (of_int a / of_int b)
           in if r \<noteq> 0 \<and> 1024 \<le> ilog2 \<bar>r\<bar> then Inl OverflowError else Inr r)"
proof -
  have "((2::rat) ^ 1024 \<le> \<bar>r\<bar>) = (r \<noteq> 0 \<and> 1024 \<le> ilog2 \<bar>r\<bar>)" for r
  proof (cases "r = 0")
    case True
    then show ?thesis by simp
  next
    case False
    then have "0 < \<bar>r\<bar>" by simp
    from ilog2_ge_iff[OF this, of 1024] have "((2::rat) powi 1024 \<le> \<bar>r\<bar>) = (1024 \<le> ilog2 \<bar>r\<bar>)" .
    moreover have "(2::rat) powi 1024 = 2 ^ 1024" by (simp only: power_int_numeral)
    ultimately show ?thesis using False by (simp only: simp_thms)
  qed
  then show ?thesis by (simp only: true_div_def)
qed

lemma round_half_even_lower: "\<lfloor>y\<rfloor> \<le> round_half_even y"
  by (simp add: round_half_even_def Let_def)

lemma round_double_lower:
  assumes "0 < q" "- 1022 \<le> ilog2 q"
  shows "2 powi ilog2 q \<le> round_double q"
proof -
  let ?e = "ilog2 q"
  let ?t = "?e - 52"
  let ?y = "q / 2 powi ?t"
  have t: "max (ilog2 \<bar>q\<bar>) (- 1022) - 52 = ?t" using assms by simp
  have r: "round_double q = of_int (round_half_even ?y) * 2 powi ?t"
    using assms(1) t by (simp add: round_double_def Let_def)
  have "(2::rat) powi 52 = 2 powi ?e / 2 powi ?t"
    by (simp add: power_int_diff[symmetric])
  also have "\<dots> \<le> ?y"
    using ilog2_bounds[OF assms(1)] by (intro divide_right_mono) simp_all
  finally have "(of_int (2 ^ 52) :: rat) \<le> ?y"
    by (simp only: power_int_numeral of_int_power of_int_numeral)
  then have "2 ^ 52 \<le> \<lfloor>?y\<rfloor>" by (simp only: le_floor_iff)
  then have "2 ^ 52 \<le> round_half_even ?y"
    using round_half_even_lower[of ?y] by linarith
  then have "(of_int (2 ^ 52) :: rat) \<le> of_int (round_half_even ?y)"
    by (simp only: of_int_le_iff)
  then have "(2::rat) powi 52 \<le> of_int (round_half_even ?y)"
    by (simp only: power_int_numeral of_int_power of_int_numeral)
  then have "(2::rat) powi 52 * 2 powi ?t \<le> of_int (round_half_even ?y) * 2 powi ?t"
    by (intro mult_right_mono) simp_all
  moreover have "(2::rat) powi 52 * 2 powi ?t = 2 powi (52 + ?t)"
    by (rule power_int_add[symmetric]) simp
  moreover have "52 + ?t = ?e" by simp
  ultimately show ?thesis by (simp only: r)
qed

lemma true_div_overflow:
  assumes "0 < b" "2 ^ 1024 * b \<le> a"
  shows "true_div a b = Inl OverflowError"
proof -
  let ?q = "(of_int a :: rat) / of_int b"
  have bp: "(0::rat) < of_int b" using assms(1) by simp
  have "(of_int (2 ^ 1024 * b) :: rat) \<le> of_int a"
    using assms(2) by (simp only: of_int_le_iff)
  then have "(2::rat) ^ 1024 * of_int b \<le> of_int a"
    by (simp only: of_int_mult of_int_power of_int_numeral)
  then have q: "(2::rat) ^ 1024 \<le> ?q"
    using bp by (simp only: pos_le_divide_eq)
  have p: "(2::rat) powi 1024 = 2 ^ 1024" by (simp only: power_int_numeral)
  have "(0::rat) < 2 ^ 1024" by (rule zero_less_power) simp
  then have qpos: "0 < ?q" using q by (rule less_le_trans)
  have e: "1024 \<le> ilog2 ?q"
    using ilog2_ge_iff[OF qpos, of 1024] q by (simp only: p)
  then have "- 1022 \<le> ilog2 ?q" by simp
  from round_double_lower[OF qpos this]
  have "(2::rat) powi ilog2 ?q \<le> round_double ?q" .
  moreover have "(2::rat) powi 1024 \<le> 2 powi ilog2 ?q"
    using e by (intro power_int_increasing) simp_all
  ultimately have "(2::rat) powi 1024 \<le> round_double ?q"
    by (rule order_trans[rotated])
  then have "(2::rat) ^ 1024 \<le> round_double ?q"
    by (simp only: p)
  then have "(2::rat) ^ 1024 \<le> \<bar>round_double ?q\<bar>"
    by (rule order_trans) (rule abs_ge_self)
  then show ?thesis
    using assms(1) by (simp only: true_div_def Let_def) (simp del: power_numeral)
qed

lemma ratio_cases:
  "hours p \<noteq> 0 \<Longrightarrow> ratio p = Inl OverflowError \<or> (\<exists>k. ratio p = Inr k)"
  by (simp add: ratio_def true_div_def Let_def)

lemma ratio_in_range:
  "0 < hours p \<Longrightarrow> \<bar>val p\<bar> < 2 ^ 1023 \<Longrightarrow> \<exists>k. ratio p = Inr k"
  unfolding ratio_def by (rule true_div_in_range)

lemma ratio_zero_hours: "(ratio p = Inl ZeroDivisionError) = (hours p = 0)"
  by (simp add: ratio_def true_div_def Let_def)

lemma keys_of_Inr:
  "\<forall>p\<in>set ps. \<exists>k. ratio p = Inr k \<Longrightarrow> \<exists>kps. keys_of ps = Inr kps \<and> map snd kps = ps"
  by (induction ps) auto

lemma keys_of_cases:
  "\<forall>p\<in>set ps. hours p \<noteq> 0 \<Longrightarrow>
     keys_of ps = Inl OverflowError \<or> (\<forall>p\<in>set ps. \<exists>k. ratio p = Inr k)"
proof (induction ps)
  case Nil
  then show ?case by simp
next
  case (Cons p ps)
  from Cons.prems have h: "hours p \<noteq> 0" by simp
  show ?case
  proof (cases "ratio p")
    case (Inl e)
    then have "e = OverflowError" using ratio_cases[OF h] by auto
    then show ?thesis using Inl by simp
  next
    case (Inr k)
    from Cons.IH Cons.prems
    consider "keys_of ps = Inl OverflowError" | "\<forall>p\<in>set ps. \<exists>k. ratio p = Inr k"
      by auto
    then show ?thesis
    proof cases
      case 1
      then show ?thesis using Inr by simp
    next
      case 2
      then show ?thesis using Inr by simp
    qed
  qed
qed

lemma sorted_desc_Inr:
  assumes "\<forall>p\<in>set ps. \<exists>k. ratio p = Inr k"
  shows "\<exists>sp. sorted_desc ps = Inr sp \<and> mset sp = mset ps"
proof -
  obtain kps where k: "keys_of ps = Inr kps" "map snd kps = ps"
    using keys_of_Inr[OF assms] by auto
  have "mset (map snd (rev (sort_key fst (rev kps)))) = mset (map snd kps)"
    by (simp only: mset_map mset_rev mset_sort)
  then show ?thesis using k by (simp add: sorted_desc_def)
qed

lemma sorted_desc_cases:
  assumes "\<forall>p\<in>set ps. hours p \<noteq> 0"
  shows "sorted_desc ps = Inl OverflowError \<or> (\<forall>p\<in>set ps. \<exists>k. ratio p = Inr k)"
  using keys_of_cases[OF assms] by (auto simp: sorted_desc_def)

lemma greedy_loop_inv:
  "\<exists>sel. greedy_loop xs (tv, ch, rem) = (tv + value_sum sel, ch @ sel, rem - hours_sum sel)
     \<and> subseq sel xs \<and> (0 \<le> rem \<longrightarrow> hours_sum sel \<le> rem)"
proof (induction xs arbitrary: tv ch rem)
  case Nil
  show ?case by (simp add: value_sum_def hours_sum_def)
next
  case (Cons p xs)
  show ?case
  proof (cases "hours p \<le> rem")
    case True
    obtain sel where s: "greedy_loop xs (tv + val p, ch @ [p], rem - hours p) =
        (tv + val p + value_sum sel, (ch @ [p]) @ sel, rem - hours p - hours_sum sel)"
        "subseq sel xs" "0 \<le> rem - hours p \<longrightarrow> hours_sum sel \<le> rem - hours p"
      using Cons.IH[of "tv + val p" "ch @ [p]" "rem - hours p"] by auto
    show ?thesis
      using True s by (intro exI[of _ "p # sel"]) (simp add: value_sum_def hours_sum_def)
  next
    case False
    obtain sel where s: "greedy_loop xs (tv, ch, rem) =
        (tv + value_sum sel, ch @ sel, rem - hours_sum sel)"
        "subseq sel xs" "0 \<le> rem \<longrightarrow> hours_sum sel \<le> rem"
      using Cons.IH[of tv ch rem] by auto
    show ?thesis
      using False s by (intro exI[of _ sel]) (simp add: list_emb_Cons)
  qed
qed

lemma greedy_returns:
  assumes "capacity \<le> 0 \<or> ps = [] \<or> (\<forall>p\<in>set ps. \<exists>k. ratio p = Inr k)"
  shows "\<exists>sel. greedy_knapsack ps capacity = Inr (value_sum sel, sel)
           \<and> mset sel \<subseteq># mset ps \<and> (0 \<le> capacity \<longrightarrow> hours_sum sel \<le> capacity)"
proof (cases "capacity \<le> 0 \<or> ps = []")
  case True
  then show ?thesis
    by (intro exI[of _ "[]"]) (auto simp: greedy_knapsack_def value_sum_def hours_sum_def)
next
  case False
  then have "\<forall>p\<in>set ps. \<exists>k. ratio p = Inr k" using assms by blast
  then obtain sp where sp: "sorted_desc ps = Inr sp" "mset sp = mset ps"
    using sorted_desc_Inr by blast
  obtain sel where s: "greedy_loop sp (0, [], capacity) =
      (0 + value_sum sel, [] @ sel, capacity - hours_sum sel)"
      "subseq sel sp" "0 \<le> capacity \<longrightarrow> hours_sum sel \<le> capacity"
    using greedy_loop_inv[of sp 0 "[]" capacity] by auto
  have "mset sel \<subseteq># mset ps"
    using subseq_mset_subset[OF s(2)] sp(2) by simp
  then show ?thesis
    using False sp(1) s(1,3) by (intro exI[of _ sel]) (simp add: greedy_knapsack_def)
qed

lemma greedy_cases:
  assumes "\<forall>p\<in>set ps. hours p \<noteq> 0"
  shows "greedy_knapsack ps capacity = Inl OverflowError
       \<or> (\<exists>sel. greedy_knapsack ps capacity = Inr (value_sum sel, sel)
             \<and> mset sel \<subseteq># mset ps \<and> (0 \<le> capacity \<longrightarrow> hours_sum sel \<le> capacity))"
proof (cases "capacity \<le> 0 \<or> ps = []")
  case True
  then show ?thesis using greedy_returns[of capacity ps] by blast
next
  case False
  from sorted_desc_cases[OF assms] show ?thesis
  proof
    assume "sorted_desc ps = Inl OverflowError"
    then show ?thesis using False by (simp add: greedy_knapsack_def)
  next
    assume "\<forall>p\<in>set ps. \<exists>k. ratio p = Inr k"
    then show ?thesis using greedy_returns[of capacity ps] by blast
  qed
qed

lemma greedy_in_range:
  assumes "\<forall>p\<in>set ps. 0 < hours p" "\<forall>p\<in>set ps. \<bar>val p\<bar> < 2 ^ 1023"
  shows "\<exists>sel. greedy_knapsack ps capacity = Inr (value_sum sel, sel)"
proof -
  have "\<forall>p\<in>set ps. \<exists>k. ratio p = Inr k"
    using assms ratio_in_range by blast
  then show ?thesis using greedy_returns[of capacity ps] by blast
qed

lemma recursive_solve_list: "recursive_knapsack ps capacity = solve_list ps capacity"
  by (simp add: recursive_knapsack_def solve_drop)

lemma memoized_recursive: "memoized_knapsack ps capacity = recursive_knapsack ps capacity"
  using solve_memo_solve[of ps Map.empty 0 capacity]
  by (simp add: memoized_knapsack_def recursive_knapsack_def memo_ok_def)

lemma bottom_up_optimum:
  assumes "\<forall>p\<in>set ps. 0 < hours p" "0 \<le> capacity"
  shows "dp_table ps capacity ! length ps ! nat capacity = optimum ps capacity"
proof -
  have "nat capacity < nat (capacity + 1)" using assms(2) by simp
  from dp_row_optimum[OF assms(1) le_refl this]
  show ?thesis using assms(2) by (simp add: dp_table_nth)
qed

lemma pos_nonneg: "\<forall>p\<in>set ps. 0 < hours p \<Longrightarrow> \<forall>p\<in>set ps. 0 \<le> hours (p::project)"
  by (simp add: order_less_imp_le)

lemma pos_nonzero: "\<forall>p\<in>set ps. 0 < hours p \<Longrightarrow> \<forall>p\<in>set ps. hours (p::project) \<noteq> 0"
  by auto

lemma X_hours_pos: "\<forall>p\<in>set [X1, X2, X3]. 0 < hours p"
  by (simp add: X1_def X2_def X3_def)

lemma X_val_nonneg: "\<forall>p\<in>set [X1, X2, X3]. 0 \<le> val p"
  by (simp add: X1_def X2_def X3_def)

lemma X_val_range: "\<forall>p\<in>set [X1, X2, X3]. \<bar>val p\<bar> < 2 ^ 1023"
  by (simp add: X1_def X2_def X3_def)

subsection \<open>Non-positive capacity\<close>

text \<open>
  The greedy, recursive and memoized solvers return \<open>(0, [])\<close> for every capacity
  \<open>\<le> 0\<close>, by their guards. \<open>bottom_up_knapsack\<close> has no such guard: for a negative
  capacity every row of its table is empty and the first read of a cell raises IndexError;
  at capacity 0, with strictly positive hours, it returns \<open>(0, [])\<close>.
\<close>

lemma efold_unchanged:
  "\<forall>x\<in>set xs. f x s = Inr s \<Longrightarrow> efold f xs s = Inr s"
  by (induction xs) auto

lemma nonpositive_capacity_guarded:
  assumes "capacity \<le> 0"
  shows "greedy_knapsack ps capacity = Inr (0, [])"
    and "recursive_knapsack ps capacity = (0, [])"
    and "memoized_knapsack ps capacity = (0, [])"
proof -
  show "greedy_knapsack ps capacity = Inr (0, [])"
    using assms by (simp add: greedy_knapsack_def)
  show r: "recursive_knapsack ps capacity = (0, [])"
    using assms by (simp add: recursive_solve_list solve_list_nonpos)
  show "memoized_knapsack ps capacity = (0, [])"
    using r by (simp add: memoized_recursive)
qed

lemma build_table_negative:
  assumes "capacity < 0"
  shows "build_table ps capacity = Inr (replicate (length ps + 1) [])"
proof -
  have m: "nat (capacity + 1) = 0" using assms by simp
  let ?f = "\<lambda>i T. ebind (py_get ps (int i - 1)) (\<lambda>p. fill_row p i capacity T)"
  have "\<forall>i\<in>set [1..<length ps + 1].
      ?f i (init_table (length ps) capacity) = Inr (init_table (length ps) capacity)"
  proof
    fix i assume "i \<in> set [1..<length ps + 1]"
    then have i: "1 \<le> i" "i \<le> length ps" by auto
    then have "int i - 1 = int (i - 1)" by (simp add: of_nat_diff)
    then have "py_get ps (int i - 1) = Inr (ps ! (i - 1))"
      using py_get_nat[of "i - 1" ps] i by simp
    then show "ebind (py_get ps (int i - 1)) (\<lambda>p. fill_row p i capacity (init_table (length ps) capacity))
        = Inr (init_table (length ps) capacity)"
      by (simp add: fill_row_def m)
  qed
  from efold_unchanged[of "[1..<length ps + 1]" ?f, OF this] show ?thesis
    by (simp add: build_table_def init_table_def m)
qed

lemma bottom_up_negative_capacity:
  assumes "capacity < 0"
  shows "bottom_up_knapsack ps capacity = Inl IndexError"
proof -
  let ?T = "replicate (length ps + 1) ([]::int list)"
  have e: "py_get ([]::int list) capacity = Inl IndexError"
    by (simp add: py_get_def)
  show ?thesis
  proof (cases "length ps")
    case 0
    then have bt: "backtrack ps ?T capacity = Inr ([], capacity)"
      by (simp add: backtrack_def)
    have g: "py_get ?T (int (length ps)) = Inr []"
      using 0 by (simp add: py_get_def)
    show ?thesis
      by (simp only: bottom_up_knapsack_def build_table_negative[OF assms] bt g e
            ebind_Inr ebind_Inl prod.case)
  next
    case (Suc n)
    have r: "rev [1..<length ps + 1] = length ps # rev [1..<length ps]"
      using Suc by simp
    have "?T ! length ps = []"
      by (simp only: nth_replicate less_add_one)
    then have g: "py_get ?T (int (length ps)) = Inr []"
      using py_get_nat[of "length ps" ?T] by simp
    have "backtrack_step ps ?T (length ps) ([], capacity) = Inl IndexError"
      unfolding backtrack_step_def by (simp only: prod.case g ebind_Inr e ebind_Inl)
    then have "backtrack ps ?T capacity = Inl IndexError"
      unfolding backtrack_def by (simp only: r efold.simps ebind_Inl)
    then show ?thesis
      by (simp only: bottom_up_knapsack_def build_table_negative[OF assms] ebind_Inr ebind_Inl)
  qed
qed

lemma bottom_up_zero_capacity:
  assumes "\<forall>p\<in>set ps. 0 < hours p"
  shows "bottom_up_knapsack ps 0 = Inr (0, [])"
proof -
  let ?T = "dp_table ps 0"
  let ?ch = "picks ps ?T (length ps) 0"
  have v: "?T ! length ps ! nat 0 = 0"
    using dp_row_solve_list[OF assms le_refl, of 0 "nat (0 + 1)"]
    by (simp add: dp_table_nth solve_list_nonpos)
  have "hours_sum ?ch \<le> 0"
    using picks_hours[OF le_refl order_refl order_refl pos_nonneg[OF assms]] .
  moreover have "\<forall>p\<in>set ?ch. 0 < hours p"
  proof
    fix p assume "p \<in> set ?ch"
    then have "p \<in> set (rev ?ch)" by simp
    moreover have "subseq (rev ?ch) ps"
      using picks_subseq[OF le_refl, of ps ?T 0] by simp
    ultimately have "p \<in> set ps"
      using set_mset_mono[OF subseq_mset_subset] by fastforce
    then show "0 < hours p" using assms by simp
  qed
  ultimately have "?ch = []" by (rule hours_sum_pos_nil[rotated])
  then show ?thesis
    using bottom_up_ok[OF pos_nonneg[OF assms] order_refl] v by simp
qed

subsection \<open>The sort key on concrete inputs\<close>

text \<open>
  The division on concrete values: an exact quotient, a quotient rounded to 53 bits, two
  ties rounded to the even neighbour (so that distinct quotients give equal keys), a
  negative quotient, a zero divisor, and a quotient beyond the range of a float.
\<close>

lemma true_div_examples:
  "true_div 60 10 = Inr 6"
  "true_div 1 3 = Inr (6004799503160661 / 2 ^ 54)"
  "true_div (2 ^ 53 + 1) 1 = Inr (2 ^ 53)"
  "true_div (2 ^ 53 + 3) 1 = Inr (2 ^ 53 + 4)"
  "true_div (- 7) 2 = Inr (- 7 / 2)"
  "true_div 1 0 = Inl ZeroDivisionError"
  by code_simp+

lemma true_div_huge: "true_div (10 ^ 400) 1 = Inl OverflowError"
  by (rule true_div_overflow) simp_all

lemma X_greedy: "greedy_knapsack [X1, X2, X3] 50 = Inr (160, [X1, X2])"
  by code_simp

lemma Huge_greedy: "greedy_knapsack [Huge] 1 = Inl OverflowError"
proof -
  have "ratio Huge = Inl OverflowError"
    using true_div_huge by (simp add: ratio_def Huge_def)
  then show ?thesis
    by (simp add: greedy_knapsack_def sorted_desc_def)
qed

section \<open>The claims\<close>

text \<open>
  Claim C1. For projects with strictly positive hours and non-negative values and a
  non-negative capacity, the value returned by each exact solver (recursive, memoized,
  bottom-up) is the optimum of the 0/1 knapsack problem, the largest total value of a
  subsequence of the input whose hours fit the capacity; the value that the greedy
  selector returns is at most this optimum. The exact solvers always return; the greedy
  selector returns unless the float division of its sort key raises OverflowError.
\<close>

theorem exact_solvers_optimal:
  assumes "\<forall>p\<in>set projects. 0 < hours p" "\<forall>p\<in>set projects. 0 \<le> val p" "0 \<le> capacity"
  shows "fst (recursive_knapsack projects capacity) = optimum projects capacity
       \<and> fst (memoized_knapsack projects capacity) = optimum projects capacity
       \<and> (\<exists>chosen. bottom_up_knapsack projects capacity = Inr (optimum projects capacity, chosen))
       \<and> (greedy_knapsack projects capacity = Inl OverflowError
            \<or> (\<exists>v chosen. greedy_knapsack projects capacity = Inr (v, chosen)
                  \<and> v \<le> optimum projects capacity))
       \<and> ((\<forall>p\<in>set projects. \<bar>val p\<bar> < 2 ^ 1023)
            \<longrightarrow> greedy_knapsack projects capacity \<noteq> Inl OverflowError)"
proof -
  have opt: "optimum projects capacity = fst (solve_list projects capacity)"
    using optimum_solve_list[OF assms(1,3)] .
  have r: "fst (recursive_knapsack projects capacity) = optimum projects capacity"
    by (simp add: recursive_solve_list opt)
  have m: "fst (memoized_knapsack projects capacity) = optimum projects capacity"
    by (simp add: memoized_recursive r)
  have b: "\<exists>chosen. bottom_up_knapsack projects capacity = Inr (optimum projects capacity, chosen)"
    using bottom_up_ok[OF pos_nonneg[OF assms(1)] assms(3)] bottom_up_optimum[OF assms(1,3)]
    by simp
  have gr: "greedy_knapsack projects capacity = Inl OverflowError
      \<or> (\<exists>v chosen. greedy_knapsack projects capacity = Inr (v, chosen)
            \<and> v \<le> optimum projects capacity)"
    using greedy_cases[OF pos_nonzero[OF assms(1)], of capacity]
  proof
    assume "greedy_knapsack projects capacity = Inl OverflowError"
    then show ?thesis by simp
  next
    assume "\<exists>sel. greedy_knapsack projects capacity = Inr (value_sum sel, sel)
        \<and> mset sel \<subseteq># mset projects \<and> (0 \<le> capacity \<longrightarrow> hours_sum sel \<le> capacity)"
    then obtain sel where g: "greedy_knapsack projects capacity = Inr (value_sum sel, sel)"
        "mset sel \<subseteq># mset projects" "hours_sum sel \<le> capacity"
      using assms(3) by auto
    have "value_sum sel \<le> optimum projects capacity"
      using solve_list_upper[OF assms(1) g(2,3)] opt by simp
    then show ?thesis using g(1) by blast
  qed
  have rng: "(\<forall>p\<in>set projects. \<bar>val p\<bar> < 2 ^ 1023)
      \<longrightarrow> greedy_knapsack projects capacity \<noteq> Inl OverflowError"
    using greedy_in_range[OF assms(1), of capacity] by auto
  show ?thesis using r m b gr rng by blast
qed

text \<open>The hypotheses hold and the statement applies on the scenario X1, X2, X3 with capacity 50.\<close>

theorem exact_solvers_optimal_witness:
  "0 < hours X1 \<and> 0 < hours X2 \<and> 0 < hours X3
   \<and> 0 \<le> val X1 \<and> 0 \<le> val X2 \<and> 0 \<le> val X3 \<and> (0::int) \<le> 50
   \<and> \<bar>val X1\<bar> < 2 ^ 1023 \<and> \<bar>val X2\<bar> < 2 ^ 1023 \<and> \<bar>val X3\<bar> < 2 ^ 1023
   \<and> fst (recursive_knapsack [X1, X2, X3] 50) = optimum [X1, X2, X3] 50
   \<and> fst (memoized_knapsack [X1, X2, X3] 50) = optimum [X1, X2, X3] 50
   \<and> (\<exists>chosen. bottom_up_knapsack [X1, X2, X3] 50 = Inr (optimum [X1, X2, X3] 50, chosen))
   \<and> (\<exists>v chosen. greedy_knapsack [X1, X2, X3] 50 = Inr (v, chosen)
         \<and> v \<le> optimum [X1, X2, X3] 50)"
proof -
  have c: "(0::int) \<le> 50" by simp
  have h: "0 < hours X1 \<and> 0 < hours X2 \<and> 0 < hours X3
      \<and> 0 \<le> val X1 \<and> 0 \<le> val X2 \<and> 0 \<le> val X3 \<and> (0::int) \<le> 50"
    by (simp add: X1_def X2_def X3_def)
  have v: "\<bar>val X1\<bar> < 2 ^ 1023 \<and> \<bar>val X2\<bar> < 2 ^ 1023 \<and> \<bar>val X3\<bar> < 2 ^ 1023"
    using X_val_range by simp
  show ?thesis
    using h v X_val_range exact_solvers_optimal[OF X_hours_pos X_val_nonneg c] by blast
qed

text \<open>
  Claim C2. With capacity \<open>-1\<close> and the single project X1, the greedy, recursive and
  memoized solvers return \<open>(0, [])\<close>, while \<open>bottom_up_knapsack\<close> builds a table of empty
  rows and raises IndexError at the first read \<open>T[i][c]\<close> instead of returning
  \<open>(0, [])\<close>.
\<close>

theorem negative_capacity_bottom_up:
  "greedy_knapsack [X1] (- 1) = Inr (0, [])
   \<and> recursive_knapsack [X1] (- 1) = (0, [])
   \<and> memoized_knapsack [X1] (- 1) = (0, [])
   \<and> bottom_up_knapsack [X1] (- 1) = Inl IndexError"
  by code_simp

text \<open>
  Claim C3. For projects with strictly positive hours and a non-negative capacity, the
  subset returned by each of the four solvers has hours that sum to at most the capacity.
  The exact solvers always return; the greedy selector returns unless the float division
  of its sort key raises OverflowError.
\<close>

theorem chosen_hours_within_capacity:
  assumes "\<forall>p\<in>set projects. 0 < hours p" "0 \<le> capacity"
  shows "(greedy_knapsack projects capacity = Inl OverflowError
            \<or> (\<exists>v chosen. greedy_knapsack projects capacity = Inr (v, chosen)
                  \<and> hours_sum chosen \<le> capacity))
       \<and> hours_sum (snd (recursive_knapsack projects capacity)) \<le> capacity
       \<and> hours_sum (snd (memoized_knapsack projects capacity)) \<le> capacity
       \<and> (\<exists>v chosen. bottom_up_knapsack projects capacity = Inr (v, chosen)
            \<and> hours_sum chosen \<le> capacity)
       \<and> ((\<forall>p\<in>set projects. \<bar>val p\<bar> < 2 ^ 1023)
            \<longrightarrow> greedy_knapsack projects capacity \<noteq> Inl OverflowError)"
proof -
  have g: "greedy_knapsack projects capacity = Inl OverflowError
      \<or> (\<exists>v chosen. greedy_knapsack projects capacity = Inr (v, chosen)
            \<and> hours_sum chosen \<le> capacity)"
    using greedy_cases[OF pos_nonzero[OF assms(1)], of capacity] assms(2) by blast
  have r: "hours_sum (snd (recursive_knapsack projects capacity)) \<le> capacity"
    using hours_sum_solve_list[OF assms(2)] by (simp add: recursive_solve_list)
  have m: "hours_sum (snd (memoized_knapsack projects capacity)) \<le> capacity"
    using r by (simp add: memoized_recursive)
  have "hours_sum (rev (picks projects (dp_table projects capacity) (length projects) capacity))
      \<le> capacity"
    using picks_hours[OF le_refl assms(2) order_refl pos_nonneg[OF assms(1)]]
    by (simp add: hours_sum_def rev_map[symmetric])
  then have b: "\<exists>v chosen. bottom_up_knapsack projects capacity = Inr (v, chosen)
      \<and> hours_sum chosen \<le> capacity"
    using bottom_up_ok[OF pos_nonneg[OF assms(1)] assms(2)] by blast
  have rng: "(\<forall>p\<in>set projects. \<bar>val p\<bar> < 2 ^ 1023)
      \<longrightarrow> greedy_knapsack projects capacity \<noteq> Inl OverflowError"
    using greedy_in_range[OF assms(1), of capacity] by auto
  show ?thesis using g r m b rng by blast
qed

text \<open>The hypotheses hold and the statement applies on the scenario X1, X2, X3 with capacity 50.\<close>

theorem chosen_hours_within_capacity_witness:
  "0 < hours X1 \<and> 0 < hours X2 \<and> 0 < hours X3 \<and> (0::int) \<le> 50
   \<and> \<bar>val X1\<bar> < 2 ^ 1023 \<and> \<bar>val X2\<bar> < 2 ^ 1023 \<and> \<bar>val X3\<bar> < 2 ^ 1023
   \<and> (\<exists>v chosen. greedy_knapsack [X1, X2, X3] 50 = Inr (v, chosen) \<and> hours_sum chosen \<le> 50)
   \<and> hours_sum (snd (recursive_knapsack [X1, X2, X3] 50)) \<le> 50
   \<and> hours_sum (snd (memoized_knapsack [X1, X2, X3] 50)) \<le> 50
   \<and> (\<exists>v chosen. bottom_up_knapsack [X1, X2, X3] 50 = Inr (v, chosen) \<and> hours_sum chosen \<le> 50)"
proof -
  have c: "(0::int) \<le> 50" by simp
  have h: "0 < hours X1 \<and> 0 < hours X2 \<and> 0 < hours X3 \<and> (0::int) \<le> 50"
    by (simp add: X1_def X2_def X3_def)
  have v: "\<bar>val X1\<bar> < 2 ^ 1023 \<and> \<bar>val X2\<bar> < 2 ^ 1023 \<and> \<bar>val X3\<bar> < 2 ^ 1023"
    using X_val_range by simp
  show ?thesis
    using h v X_val_range chosen_hours_within_capacity[OF X_hours_pos c] by blast
qed

text \<open>
  Claim C4. For projects with strictly positive hours and a non-negative capacity, the
  value returned by each of the four solvers is the sum of the values of the subset it
  returns; for \<open>bottom_up_knapsack\<close> the returned value is the table entry
  \<open>T[n][capacity]\<close> and the reconstructed subset sums to it. The exact solvers always
  return; the greedy selector returns unless the float division of its sort key raises
  OverflowError.
\<close>

theorem value_is_sum_of_chosen:
  assumes "\<forall>p\<in>set projects. 0 < hours p" "0 \<le> capacity"
  shows "(greedy_knapsack projects capacity = Inl OverflowError
            \<or> (\<exists>v chosen. greedy_knapsack projects capacity = Inr (v, chosen)
                  \<and> v = value_sum chosen))
       \<and> fst (recursive_knapsack projects capacity)
            = value_sum (snd (recursive_knapsack projects capacity))
       \<and> fst (memoized_knapsack projects capacity)
            = value_sum (snd (memoized_knapsack projects capacity))
       \<and> (\<exists>T chosen. build_table projects capacity = Inr T
            \<and> bottom_up_knapsack projects capacity
                 = Inr (T ! length projects ! nat capacity, chosen)
            \<and> value_sum chosen = T ! length projects ! nat capacity)
       \<and> ((\<forall>p\<in>set projects. \<bar>val p\<bar> < 2 ^ 1023)
            \<longrightarrow> greedy_knapsack projects capacity \<noteq> Inl OverflowError)"
proof -
  have g: "greedy_knapsack projects capacity = Inl OverflowError
      \<or> (\<exists>v chosen. greedy_knapsack projects capacity = Inr (v, chosen) \<and> v = value_sum chosen)"
    using greedy_cases[OF pos_nonzero[OF assms(1)], of capacity] by blast
  have r: "fst (recursive_knapsack projects capacity)
      = value_sum (snd (recursive_knapsack projects capacity))"
    by (simp add: recursive_solve_list value_sum_solve_list)
  have m: "fst (memoized_knapsack projects capacity)
      = value_sum (snd (memoized_knapsack projects capacity))"
    using r by (simp add: memoized_recursive)
  let ?T = "dp_table projects capacity"
  have "value_sum (rev (picks projects ?T (length projects) capacity))
      = ?T ! length projects ! nat capacity"
    using picks_value[OF le_refl assms(2) order_refl pos_nonneg[OF assms(1)]]
    by (simp add: value_sum_def rev_map[symmetric])
  then have b: "\<exists>T chosen. build_table projects capacity = Inr T
      \<and> bottom_up_knapsack projects capacity = Inr (T ! length projects ! nat capacity, chosen)
      \<and> value_sum chosen = T ! length projects ! nat capacity"
    using bottom_up_ok[OF pos_nonneg[OF assms(1)] assms(2)]
          build_table_ok[OF pos_nonneg[OF assms(1)], of capacity] by blast
  have rng: "(\<forall>p\<in>set projects. \<bar>val p\<bar> < 2 ^ 1023)
      \<longrightarrow> greedy_knapsack projects capacity \<noteq> Inl OverflowError"
    using greedy_in_range[OF assms(1), of capacity] by auto
  show ?thesis using g r m b rng by blast
qed

text \<open>The hypotheses hold and the statement applies on the scenario X1, X2, X3 with capacity 50.\<close>

theorem value_is_sum_of_chosen_witness:
  "0 < hours X1 \<and> 0 < hours X2 \<and> 0 < hours X3 \<and> (0::int) \<le> 50
   \<and> \<bar>val X1\<bar> < 2 ^ 1023 \<and> \<bar>val X2\<bar> < 2 ^ 1023 \<and> \<bar>val X3\<bar> < 2 ^ 1023
   \<and> (\<exists>v chosen. greedy_knapsack [X1, X2, X3] 50 = Inr (v, chosen) \<and> v = value_sum chosen)
   \<and> fst (recursive_knapsack [X1, X2, X3] 50) = value_sum (snd (recursive_knapsack [X1, X2, X3] 50))
   \<and> fst (memoized_knapsack [X1, X2, X3] 50) = value_sum (snd (memoized_knapsack [X1, X2, X3] 50))
   \<and> (\<exists>T chosen. build_table [X1, X2, X3] 50 = Inr T
        \<and> bottom_up_knapsack [X1, X2, X3] 50 = Inr (T ! length [X1, X2, X3] ! nat 50, chosen)
        \<and> value_sum chosen = T ! length [X1, X2, X3] ! nat 50)"
proof -
  have c: "(0::int) \<le> 50" by simp
  have h: "0 < hours X1 \<and> 0 < hours X2 \<and> 0 < hours X3 \<and> (0::int) \<le> 50"
    by (simp add: X1_def X2_def X3_def)
  have v: "\<bar>val X1\<bar> < 2 ^ 1023 \<and> \<bar>val X2\<bar> < 2 ^ 1023 \<and> \<bar>val X3\<bar> < 2 ^ 1023"
    using X_val_range by simp
  show ?thesis
    using h v X_val_range value_is_sum_of_chosen[OF X_hours_pos c] by blast
qed

text \<open>
  Claim C5. On the same input (strictly positive hours, non-negative capacity) the three
  exact solvers return the same total value, and \<open>memoized_knapsack\<close> returns the very
  pair (value, subset) that \<open>recursive_knapsack\<close> returns.
\<close>

theorem exact_solvers_agree:
  assumes "\<forall>p\<in>set projects. 0 < hours p" "0 \<le> capacity"
  shows "memoized_knapsack projects capacity = recursive_knapsack projects capacity
       \<and> (\<exists>chosen. bottom_up_knapsack projects capacity
                      = Inr (fst (recursive_knapsack projects capacity), chosen))
       \<and> (\<exists>chosen. bottom_up_knapsack projects capacity
                      = Inr (fst (memoized_knapsack projects capacity), chosen))"
proof -
  have r: "fst (recursive_knapsack projects capacity) = optimum projects capacity"
    using optimum_solve_list[OF assms] by (simp add: recursive_solve_list)
  have b: "\<exists>chosen. bottom_up_knapsack projects capacity
      = Inr (fst (recursive_knapsack projects capacity), chosen)"
    using bottom_up_ok[OF pos_nonneg[OF assms(1)] assms(2)] bottom_up_optimum[OF assms] r
    by simp
  show ?thesis using b by (simp add: memoized_recursive)
qed

text \<open>The hypotheses hold and the statement applies on the scenario X1, X2, X3 with capacity 50.\<close>

theorem exact_solvers_agree_witness:
  "0 < hours X1 \<and> 0 < hours X2 \<and> 0 < hours X3 \<and> (0::int) \<le> 50
   \<and> memoized_knapsack [X1, X2, X3] 50 = recursive_knapsack [X1, X2, X3] 50
   \<and> (\<exists>chosen. bottom_up_knapsack [X1, X2, X3] 50
                  = Inr (fst (recursive_knapsack [X1, X2, X3] 50), chosen))
   \<and> (\<exists>chosen. bottom_up_knapsack [X1, X2, X3] 50
                  = Inr (fst (memoized_knapsack [X1, X2, X3] 50), chosen))"
proof -
  have c: "(0::int) \<le> 50" by simp
  have h: "0 < hours X1 \<and> 0 < hours X2 \<and> 0 < hours X3 \<and> (0::int) \<le> 50"
    by (simp add: X1_def X2_def X3_def)
  show ?thesis
    using h exact_solvers_agree[OF X_hours_pos c] by blast
qed

text \<open>
  Claim C6. For projects with strictly positive hours and a non-negative capacity,
  \<open>bottom_up_knapsack\<close> builds a table with \<open>n + 1\<close> rows of \<open>capacity + 1\<close> cells in
  which \<open>T[i][c]\<close> is the optimum for the first \<open>i\<close> projects under capacity \<open>c\<close>, for
  all \<open>0 \<le> i \<le> n\<close> and \<open>0 \<le> c \<le> capacity\<close>; row 0 and column 0 hold zeros, and the
  returned value is \<open>T[n][capacity]\<close>.
\<close>

theorem table_cells_optimal:
  assumes "\<forall>p\<in>set projects. 0 < hours p" "0 \<le> capacity"
  shows "\<exists>T. build_table projects capacity = Inr T
       \<and> length T = length projects + 1
       \<and> (\<forall>i. i \<le> length projects \<longrightarrow> length (T ! i) = nat (capacity + 1))
       \<and> (\<forall>i c. i \<le> length projects \<and> 0 \<le> c \<and> c \<le> capacity
                 \<longrightarrow> T ! i ! nat c = optimum (take i projects) c)
       \<and> (\<forall>c. 0 \<le> c \<and> c \<le> capacity \<longrightarrow> T ! 0 ! nat c = 0)
       \<and> (\<forall>i. i \<le> length projects \<longrightarrow> T ! i ! 0 = 0)
       \<and> (\<exists>chosen. bottom_up_knapsack projects capacity
                      = Inr (T ! length projects ! nat capacity, chosen))"
proof -
  let ?T = "dp_table projects capacity"
  let ?m = "nat (capacity + 1)"
  have bt: "build_table projects capacity = Inr ?T"
    using build_table_ok[OF pos_nonneg[OF assms(1)]] .
  have len: "length ?T = length projects + 1" by simp
  have rows: "\<forall>i. i \<le> length projects \<longrightarrow> length (?T ! i) = ?m"
    by (simp add: dp_table_nth)
  have cell: "T_ic = optimum (take i projects) c"
    if "i \<le> length projects" "0 \<le> c" "c \<le> capacity" "T_ic = ?T ! i ! nat c" for i c T_ic
  proof -
    have "nat c < ?m" using that(2,3) by simp
    from dp_row_optimum[OF assms(1) that(1) this] show ?thesis
      using that by (simp add: dp_table_nth)
  qed
  have cells: "\<forall>i c. i \<le> length projects \<and> 0 \<le> c \<and> c \<le> capacity
      \<longrightarrow> ?T ! i ! nat c = optimum (take i projects) c"
    using cell by blast
  have row0: "\<forall>c. 0 \<le> c \<and> c \<le> capacity \<longrightarrow> ?T ! 0 ! nat c = 0"
    by (simp add: dp_table_nth)
  have col0: "\<forall>i. i \<le> length projects \<longrightarrow> ?T ! i ! 0 = 0"
  proof (intro allI impI)
    fix i assume i: "i \<le> length projects"
    have "0 < ?m" using assms(2) by simp
    from dp_row_solve_list[OF assms(1) i this] show "?T ! i ! 0 = 0"
      using i by (simp add: dp_table_nth solve_list_nonpos)
  qed
  have ret: "\<exists>chosen. bottom_up_knapsack projects capacity
      = Inr (?T ! length projects ! nat capacity, chosen)"
    using bottom_up_ok[OF pos_nonneg[OF assms(1)] assms(2)] by blast
  show ?thesis
    using bt len rows cells row0 col0 ret by blast
qed

text \<open>The hypotheses hold and the statement applies on the scenario X1, X2, X3 with capacity 50.\<close>

theorem table_cells_optimal_witness:
  "0 < hours X1 \<and> 0 < hours X2 \<and> 0 < hours X3 \<and> (0::int) \<le> 50
   \<and> (\<exists>T. build_table [X1, X2, X3] 50 = Inr T
        \<and> T ! 3 ! 50 = optimum [X1, X2, X3] 50
        \<and> T ! 0 ! 50 = 0 \<and> T ! 3 ! 0 = 0
        \<and> (\<exists>chosen. bottom_up_knapsack [X1, X2, X3] 50 = Inr (T ! 3 ! 50, chosen)))"
proof -
  have c: "(0::int) \<le> 50" by simp
  have h: "0 < hours X1 \<and> 0 < hours X2 \<and> 0 < hours X3 \<and> (0::int) \<le> 50"
    by (simp add: X1_def X2_def X3_def)
  obtain T where T: "build_table [X1, X2, X3] 50 = Inr T"
      "\<forall>i c. i \<le> length [X1, X2, X3] \<and> 0 \<le> c \<and> c \<le> 50
          \<longrightarrow> T ! i ! nat c = optimum (take i [X1, X2, X3]) c"
      "\<forall>c. 0 \<le> c \<and> c \<le> 50 \<longrightarrow> T ! 0 ! nat c = 0"
      "\<forall>i. i \<le> length [X1, X2, X3] \<longrightarrow> T ! i ! 0 = 0"
      "\<exists>chosen. bottom_up_knapsack [X1, X2, X3] 50
          = Inr (T ! length [X1, X2, X3] ! nat 50, chosen)"
    using table_cells_optimal[OF X_hours_pos c] by blast
  have a: "T ! 3 ! 50 = optimum [X1, X2, X3] 50"
    using T(2)[rule_format, of 3 50] by simp
  have b: "T ! 0 ! 50 = 0" using T(3)[rule_format, of 50] by simp
  have d: "T ! 3 ! 0 = 0" using T(4)[rule_format, of 3] by simp
  have e: "\<exists>chosen. bottom_up_knapsack [X1, X2, X3] 50 = Inr (T ! 3 ! 50, chosen)"
    using T(5) by (simp add: numeral_3_eq_3)
  show ?thesis using h T(1) a b d e by blast
qed

text \<open>
  Claim C7. In the recursive case of \<open>solve\<close> (index inside the list, positive remaining
  capacity, the project fits), whenever the value of the including branch is not strictly
  greater than the value of the excluding branch, in particular when the two are equal,
  the result is the pair of the excluding branch. The same holds for the memoized
  \<open>solve\<close> on a key that is not yet cached.
\<close>

theorem ties_favor_exclusion:
  assumes "i < length projects" "0 < remaining" "hours (projects ! i) \<le> remaining"
  shows "(fst (solve projects (i + 1) (remaining - hours (projects ! i))) + val (projects ! i)
            \<le> fst (solve projects (i + 1) remaining)
          \<longrightarrow> solve projects i remaining = solve projects (i + 1) remaining)
       \<and> (\<forall>memo wo memo1 sub memo2.
            memo (i, remaining) = None
            \<and> solve_memo projects (i + 1) remaining memo = (wo, memo1)
            \<and> solve_memo projects (i + 1) (remaining - hours (projects ! i)) memo1 = (sub, memo2)
            \<and> fst sub + val (projects ! i) \<le> fst wo
            \<longrightarrow> fst (solve_memo projects i remaining memo) = wo)"
proof -
  have c: "\<not> (length projects \<le> i \<or> remaining \<le> 0)" using assms(1,2) by simp
  have r: "fst (solve projects (i + 1) (remaining - hours (projects ! i))) + val (projects ! i)
            \<le> fst (solve projects (i + 1) remaining)
          \<longrightarrow> solve projects i remaining = solve projects (i + 1) remaining"
    using c assms(3)
    by (subst (2) solve.simps) (auto simp: Let_def split: prod.splits)
  have m: "fst (solve_memo projects i remaining memo) = wo"
    if "memo (i, remaining) = None"
      "solve_memo projects (i + 1) remaining memo = (wo, memo1)"
      "solve_memo projects (i + 1) (remaining - hours (projects ! i)) memo1 = (sub, memo2)"
      "fst sub + val (projects ! i) \<le> fst wo" for memo wo memo1 sub memo2
    using c assms(3) that
    by (subst solve_memo.simps) (auto simp: Let_def split: prod.splits)
  show ?thesis using r m by blast
qed

text \<open>
  The hypotheses hold on two projects of equal value and hours with capacity 2: including
  the first ties with excluding it, and both solvers return the second project alone.
\<close>

theorem ties_favor_exclusion_witness:
  "(0::nat) < length [Tie1, Tie2] \<and> (0::int) < 2 \<and> hours ([Tie1, Tie2] ! 0) \<le> 2
   \<and> fst (solve [Tie1, Tie2] 1 0) + val Tie1 = fst (solve [Tie1, Tie2] 1 2)
   \<and> solve [Tie1, Tie2] 0 2 = solve [Tie1, Tie2] 1 2
   \<and> solve [Tie1, Tie2] 0 2 = (5, [Tie2])
   \<and> fst (solve_memo [Tie1, Tie2] 0 2 Map.empty) = fst (solve_memo [Tie1, Tie2] 1 2 Map.empty)
   \<and> fst (solve_memo [Tie1, Tie2] 0 2 Map.empty) = (5, [Tie2])"
proof -
  let ?ps = "[Tie1, Tie2]"
  have h1: "(0::nat) < length ?ps" by simp
  have h2: "(0::int) < 2" by simp
  have hv: "hours Tie1 = 2" "val Tie1 = 5" by (simp_all add: Tie1_def)
  have h3: "hours (?ps ! 0) \<le> 2" by (simp add: hv)
  have s10: "solve ?ps (0 + 1) (2 - hours (?ps ! 0)) = (0, [])"
    by (subst solve.simps) (simp add: hv)
  have s12: "solve ?ps (0 + 1) 2 = (5, [Tie2])" by code_simp
  have s10': "solve ?ps 1 0 = (0, [])" using s10 by (simp add: hv)
  have s12': "solve ?ps 1 2 = (5, [Tie2])" using s12 by simp
  have tie: "fst (solve ?ps 1 0) + val Tie1 = fst (solve ?ps 1 2)"
    by (simp only: s10' s12' fst_conv hv)
  have le: "fst (solve ?ps (0 + 1) (2 - hours (?ps ! 0))) + val (?ps ! 0)
      \<le> fst (solve ?ps (0 + 1) 2)"
    by (simp only: s10 s12 fst_conv) (simp add: hv)
  note inst = ties_favor_exclusion[OF h1 h2 h3]
  have a: "solve ?ps 0 2 = solve ?ps 1 2"
    using inst[THEN conjunct1, rule_format, OF le] by simp
  obtain wo memo1 where w: "solve_memo ?ps (0 + 1) 2 Map.empty = (wo, memo1)"
    by (cases "solve_memo ?ps (0 + 1) 2 Map.empty")
  have "fst (solve_memo ?ps (0 + 1) 2 Map.empty) = (5, [Tie2])" by code_simp
  then have wo: "wo = (5, [Tie2])" using w by simp
  have sub: "solve_memo ?ps (0 + 1) (2 - hours (?ps ! 0)) memo1 = ((0, []), memo1)"
    by (subst solve_memo.simps) (simp add: hv)
  have mle: "fst ((0::int, []::project list)) + val (?ps ! 0) \<le> fst wo"
    by (simp add: wo hv)
  have e: "Map.empty (0::nat, 2::int) = (None :: (int \<times> project list) option)" by simp
  have b: "fst (solve_memo ?ps 0 2 Map.empty) = wo"
    using inst[THEN conjunct2, rule_format, of Map.empty wo memo1 "(0, [])" memo1] e w sub mle
    by blast
  have b1: "fst (solve_memo ?ps 0 2 Map.empty) = fst (solve_memo ?ps 1 2 Map.empty)"
    using b w by simp
  have b2: "fst (solve_memo ?ps 0 2 Map.empty) = (5, [Tie2])"
    using b wo by simp
  have a2: "solve ?ps 0 2 = (5, [Tie2])" using a s12' by simp
  show ?thesis
    using h1 h2 h3 tie a a2 b1 b2 by blast
qed

text \<open>
  Claim C8. On X1 (value 60, hours 10), X2 (100, 20), X3 (120, 30) with capacity 50 the
  three exact solvers return total value 220 with the subset X2, X3, and the greedy
  selector returns 160 with X1, X2, which is strictly less than 220.
\<close>

theorem greedy_fails_scenario:
  "recursive_knapsack [X1, X2, X3] 50 = (220, [X2, X3])
   \<and> memoized_knapsack [X1, X2, X3] 50 = (220, [X2, X3])
   \<and> bottom_up_knapsack [X1, X2, X3] 50 = Inr (220, [X2, X3])
   \<and> greedy_knapsack [X1, X2, X3] 50 = Inr (160, [X1, X2])
   \<and> (160::int) < 220"
  by code_simp

text \<open>
  Claim C9. For projects with strictly positive hours and a non-negative capacity, each
  exact solver returns its chosen subset as a subsequence of the input list: the chosen
  projects stand at distinct positions of the input and are listed in input order.
\<close>

theorem chosen_is_subsequence:
  assumes "\<forall>p\<in>set projects. 0 < hours p" "0 \<le> capacity"
  shows "subseq (snd (recursive_knapsack projects capacity)) projects
       \<and> subseq (snd (memoized_knapsack projects capacity)) projects
       \<and> (\<exists>v chosen. bottom_up_knapsack projects capacity = Inr (v, chosen)
            \<and> subseq chosen projects)"
proof -
  have r: "subseq (snd (recursive_knapsack projects capacity)) projects"
    by (simp add: recursive_solve_list subseq_solve_list)
  have "subseq (rev (picks projects (dp_table projects capacity) (length projects) capacity))
      projects"
    using picks_subseq[OF le_refl, of projects "dp_table projects capacity" capacity] by simp
  then have b: "\<exists>v chosen. bottom_up_knapsack projects capacity = Inr (v, chosen)
      \<and> subseq chosen projects"
    using bottom_up_ok[OF pos_nonneg[OF assms(1)] assms(2)] by blast
  show ?thesis using r b by (simp add: memoized_recursive)
qed

text \<open>The hypotheses hold and the statement applies on the scenario X1, X2, X3 with capacity 50.\<close>

theorem chosen_is_subsequence_witness:
  "0 < hours X1 \<and> 0 < hours X2 \<and> 0 < hours X3 \<and> (0::int) \<le> 50
   \<and> subseq (snd (recursive_knapsack [X1, X2, X3] 50)) [X1, X2, X3]
   \<and> subseq (snd (memoized_knapsack [X1, X2, X3] 50)) [X1, X2, X3]
   \<and> (\<exists>v chosen. bottom_up_knapsack [X1, X2, X3] 50 = Inr (v, chosen)
        \<and> subseq chosen [X1, X2, X3])"
proof -
  have c: "(0::int) \<le> 50" by simp
  have h: "0 < hours X1 \<and> 0 < hours X2 \<and> 0 < hours X3 \<and> (0::int) \<le> 50"
    by (simp add: X1_def X2_def X3_def)
  show ?thesis
    using h chosen_is_subsequence[OF X_hours_pos c] by blast
qed

text \<open>
  Claim C10. When every project has strictly positive hours, no ratio computation and
  hence neither the sort nor \<open>greedy_knapsack\<close> raises ZeroDivisionError, for every
  integer capacity: the selector either returns a result or raises the OverflowError of
  the float conversion, and it returns whenever every value is below \<open>2 ^ 1023\<close> in
  magnitude.
\<close>

theorem greedy_no_division_by_zero:
  assumes "\<forall>p\<in>set projects. 0 < hours p"
  shows "(\<forall>p\<in>set projects. ratio p \<noteq> Inl ZeroDivisionError)
       \<and> sorted_desc projects \<noteq> Inl ZeroDivisionError
       \<and> greedy_knapsack projects capacity \<noteq> Inl ZeroDivisionError
       \<and> (greedy_knapsack projects capacity = Inl OverflowError
            \<or> (\<exists>v chosen. greedy_knapsack projects capacity = Inr (v, chosen)))
       \<and> ((\<forall>p\<in>set projects. \<bar>val p\<bar> < 2 ^ 1023)
            \<longrightarrow> (\<exists>v chosen. greedy_knapsack projects capacity = Inr (v, chosen)))"
proof -
  note nz = pos_nonzero[OF assms]
  have a: "\<forall>p\<in>set projects. ratio p \<noteq> Inl ZeroDivisionError"
    using nz by (simp add: ratio_zero_hours)
  have b: "sorted_desc projects \<noteq> Inl ZeroDivisionError"
    using sorted_desc_cases[OF nz] sorted_desc_Inr[of projects] by auto
  have d: "greedy_knapsack projects capacity = Inl OverflowError
      \<or> (\<exists>v chosen. greedy_knapsack projects capacity = Inr (v, chosen))"
    using greedy_cases[OF nz, of capacity] by blast
  then have c: "greedy_knapsack projects capacity \<noteq> Inl ZeroDivisionError"
    by auto
  have e: "(\<forall>p\<in>set projects. \<bar>val p\<bar> < 2 ^ 1023)
      \<longrightarrow> (\<exists>v chosen. greedy_knapsack projects capacity = Inr (v, chosen))"
    using greedy_in_range[OF assms, of capacity] by blast
  show ?thesis using a b c d e by blast
qed

text \<open>
  The hypothesis holds on X1, X2, X3, whose values are below \<open>2 ^ 1023\<close>: no key
  computation raises ZeroDivisionError and the selector returns. On the project Huge
  (value \<open>10 ^ 400\<close>, hours 1) the hypothesis holds as well and the selector raises
  OverflowError, not ZeroDivisionError.
\<close>

theorem greedy_no_division_by_zero_witness:
  "0 < hours X1 \<and> 0 < hours X2 \<and> 0 < hours X3
   \<and> \<bar>val X1\<bar> < 2 ^ 1023 \<and> \<bar>val X2\<bar> < 2 ^ 1023 \<and> \<bar>val X3\<bar> < 2 ^ 1023
   \<and> ratio X1 \<noteq> Inl ZeroDivisionError \<and> ratio X2 \<noteq> Inl ZeroDivisionError
   \<and> ratio X3 \<noteq> Inl ZeroDivisionError
   \<and> sorted_desc [X1, X2, X3] \<noteq> Inl ZeroDivisionError
   \<and> greedy_knapsack [X1, X2, X3] 50 \<noteq> Inl ZeroDivisionError
   \<and> (\<exists>v chosen. greedy_knapsack [X1, X2, X3] 50 = Inr (v, chosen))
   \<and> 0 < hours Huge
   \<and> greedy_knapsack [Huge] 1 \<noteq> Inl ZeroDivisionError
   \<and> greedy_knapsack [Huge] 1 = Inl OverflowError"
proof -
  have h: "0 < hours X1 \<and> 0 < hours X2 \<and> 0 < hours X3"
    by (simp add: X1_def X2_def X3_def)
  note v = X_val_range
  then have v': "\<bar>val X1\<bar> < 2 ^ 1023 \<and> \<bar>val X2\<bar> < 2 ^ 1023 \<and> \<bar>val X3\<bar> < 2 ^ 1023"
    by simp
  note x = greedy_no_division_by_zero[OF X_hours_pos, of 50]
  have x1: "ratio X1 \<noteq> Inl ZeroDivisionError \<and> ratio X2 \<noteq> Inl ZeroDivisionError
      \<and> ratio X3 \<noteq> Inl ZeroDivisionError"
    using x by simp
  have x2: "sorted_desc [X1, X2, X3] \<noteq> Inl ZeroDivisionError"
    using x by blast
  have x3: "greedy_knapsack [X1, X2, X3] 50 \<noteq> Inl ZeroDivisionError"
    using x by blast
  have x4: "\<exists>v chosen. greedy_knapsack [X1, X2, X3] 50 = Inr (v, chosen)"
    using x v by blast
  have hh: "\<forall>p\<in>set [Huge]. 0 < hours p" by (simp add: Huge_def)
  have y1: "0 < hours Huge" by (simp add: Huge_def)
  have y2: "greedy_knapsack [Huge] 1 \<noteq> Inl ZeroDivisionError"
    using greedy_no_division_by_zero[OF hh, of 1] by blast
  have y3: "greedy_knapsack [Huge] 1 = Inl OverflowError"
    by (rule Huge_greedy)
  show ?thesis using h v' x1 x2 x3 x4 y1 y2 y3 by blast
qed

end
